theory Spec2Isabelle
  imports Complex_Main "HOL-Library.Word"
begin

section \<open>Python values shared by both modules\<close>

text \<open>
  Exceptions are values: the class that is raised and its \<open>args\<close> tuple. Every function
  of the source that can raise returns \<open>exn + 'a\<close>, with \<open>Inl\<close> for the exception.
  \<open>add_args\<close> is \<open>exc.args += (msg,)\<close>.
\<close>

datatype exn_kind =
  TypeError | IndexError | ValueError | KeyError | AttributeError | UnitsError | EOFError |
  ZeroDivisionError | AssertionError

datatype exn = Exn exn_kind "string list"

fun add_args :: "exn \<Rightarrow> string \<Rightarrow> exn" where
  "add_args (Exn k a) msg = Exn k (a @ [msg])"

text \<open>
  Times and durations are exact rationals (seconds) in place of the floating-point
  quantities of the time library; a sample rate is a rational number of samples per
  second. \<open>py_round\<close> is \<open>int(x.round())\<close>: rounding to the nearest integer, a tie going
  to the even neighbour.
\<close>

definition py_round :: "rat \<Rightarrow> int" where
  "py_round x =
     (let f = \<lfloor>x\<rfloor>; d = x - of_int f
      in if d < 1 / 2 then f
         else if 1 / 2 < d then f + 1
         else if even f then f else f + 1)"

text \<open>
  A numpy array: its shape and its elements in row-major order. \<open>reshape\<close> with an
  explicit shape keeps the elements and needs the same number of them.
\<close>

record 'e ndarray =
  shape :: "nat list"
  elems :: "'e list"

definition reshape :: "'e ndarray \<Rightarrow> nat list \<Rightarrow> exn + 'e ndarray" where
  "reshape a new_shape =
     (if prod_list new_shape = prod_list (shape a) then Inr (a\<lparr>shape := new_shape\<rparr>)
      else Inl (Exn ValueError [''cannot reshape array'']))"

text \<open>\<open>np.zeros(shape)\<close> for a shape whose leading dimension is computed as an integer.\<close>

definition np_zeros :: "int \<Rightarrow> nat list \<Rightarrow> exn + ('e::zero) ndarray" where
  "np_zeros n ds =
     (if n < 0 then Inl (Exn ValueError [''negative dimensions are not allowed''])
      else Inr \<lparr>shape = nat n # ds, elems = replicate (nat n * prod_list ds) 0\<rparr>)"

text \<open>\<open>list.insert(i, x)\<close> for \<open>i \<ge> 0\<close>: an index past the end appends.\<close>

definition list_insert :: "'a list \<Rightarrow> nat \<Rightarrow> 'a \<Rightarrow> 'a list" where
  "list_insert xs i x = take i xs @ x # drop i xs"

section \<open>base.py: headers and the raw file handle\<close>

text \<open>
  The header classes are format specific and not part of the two modules; a header is
  the record of the attributes that the stream code reads from it.
\<close>

record header =
  frame_nr :: int
  seconds :: int
  payloadsize :: nat
  time :: rat

text \<open>
  Modelled from the spec: the raw file and the parse of a header from it, which belong
  to the format-specific header classes. By the spec's persisted layout a file is a
  concatenation of frames, each a header (of \<open>hsize\<close> bytes here) followed by
  \<open>payloadsize\<close> bytes of payload; \<open>pos\<close> is the byte offset of the file pointer.
\<close>

record fh =
  frames :: "header list"
  hsize :: nat
  pos :: nat

definition fh_tell :: "fh \<Rightarrow> nat" where
  "fh_tell f = pos f"

text \<open>\<open>fh.seek(n, 1)\<close> and \<open>fh.seek(p)\<close>.\<close>

definition fh_seek_cur :: "fh \<Rightarrow> nat \<Rightarrow> fh" where
  "fh_seek_cur f n = f\<lparr>pos := pos f + n\<rparr>"

definition fh_seek_set :: "fh \<Rightarrow> nat \<Rightarrow> fh" where
  "fh_seek_set f p = f\<lparr>pos := p\<rparr>"

text \<open>
  Modelled from the spec: what the parse of a header finds at byte offset \<open>p\<close> of a file
  holding the frames \<open>fs\<close>: the header of the frame that starts there; \<open>EOFError\<close> (the
  exception that the docstring of \<open>_get_frame_rate\<close> names) when no header is left to
  read, a header having at least one byte; a failed verification when \<open>p\<close> lies inside
  a frame.
\<close>

fun header_at :: "nat \<Rightarrow> header list \<Rightarrow> nat \<Rightarrow> exn + header" where
  "header_at hs [] p = Inl (Exn EOFError [])"
| "header_at hs (f # fs) p =
     (if hs = 0 then Inl (Exn EOFError [])
      else if p = 0 then Inr f
      else if p < hs + payloadsize f then Inl (Exn AssertionError [])
      else header_at hs fs (p - (hs + payloadsize f)))"

text \<open>
  Modelled from the spec: \<open>header_template.fromfile(fh)\<close>, the parse of one header. It
  returns the header and leaves the pointer behind it; when it raises, the pointer
  stays where the parse began (at the end of the file nothing is left to read).
\<close>

definition fromfile :: "fh \<Rightarrow> (exn + header) \<times> fh" where
  "fromfile f =
     (case header_at (hsize f) (frames f) (pos f) of
        Inl e \<Rightarrow> (Inl e, f)
      | Inr h \<Rightarrow> (Inr h, f\<lparr>pos := pos f + hsize f\<rparr>))"

section \<open>base.py: VLBIStreamBase\<close>

text \<open>
  A sample shape is a tuple of dimensions, possibly a named tuple with one field name
  per dimension.
\<close>

record shape_tuple =
  dims :: "nat list"
  field_names :: "string list option"

text \<open>
  The attributes of a stream. \<open>raw_sample_shape\<close> and \<open>squeezed_shape\<close> are the private
  \<open>_sample_shape\<close> and \<open>_squeezed_shape\<close>; \<open>last_header\<close> is the outcome of the lazy
  \<open>_last_header\<close> property, whose header search belongs to the format-specific file
  readers.
\<close>

record 'f stream =
  fh_raw :: 'f
  header0 :: header
  raw_sample_shape :: shape_tuple
  stream_bps :: nat
  stream_complex_data :: bool
  thread_ids :: "nat list option"
  samples_per_frame :: int
  sample_rate :: rat
  offset :: int
  squeeze :: bool
  squeezed_shape :: "shape_tuple option"
  last_header :: "exn + header"

definition stream_init ::
  "'f \<Rightarrow> header \<Rightarrow> shape_tuple \<Rightarrow> nat \<Rightarrow> bool \<Rightarrow> nat list option \<Rightarrow> int \<Rightarrow> rat \<Rightarrow> bool
     \<Rightarrow> exn + header \<Rightarrow> 'f stream" where
  "stream_init fh_raw' header0' sample_shape' bps' complex_data' thread_ids'
       samples_per_frame' sample_rate' squeeze' last' =
     \<lparr>fh_raw = fh_raw', header0 = header0', raw_sample_shape = sample_shape',
      stream_bps = bps', stream_complex_data = complex_data', thread_ids = thread_ids',
      samples_per_frame = samples_per_frame', sample_rate = sample_rate', offset = 0,
      squeeze = squeeze', squeezed_shape = None, last_header = last'\<rparr>"

definition start_time :: "'f stream \<Rightarrow> rat" where
  "start_time s = time (header0 s)"

text \<open>
  \<open>tell(unit)\<close>: no unit, the string \<open>'time'\<close>, or a unit of time given by its length in
  seconds. The sample rate of a stream is not 0.
\<close>

datatype tell_unit = TimeStr | TimeUnit rat

datatype tell_result = TOffset int | TQuantity rat | TTime rat

definition tell :: "'f stream \<Rightarrow> tell_unit option \<Rightarrow> tell_result" where
  "tell s unit =
     (case unit of
        None \<Rightarrow> TOffset (offset s)
      | Some TimeStr \<Rightarrow> TTime (start_time s + of_int (offset s) / sample_rate s)
      | Some (TimeUnit u) \<Rightarrow> TQuantity (of_int (offset s) / sample_rate s / u))"

text \<open>
  The \<open>sample_shape\<close> property. With \<open>squeeze\<close> set it returns the cached squeezed shape
  when that is set and not empty; otherwise it drops the dimensions that are not above 1
  (and their field names), stores the result in the cache and returns it.
\<close>

definition squeezed :: "shape_tuple \<Rightarrow> shape_tuple" where
  "squeezed sh =
     \<lparr>dims = filter (\<lambda>d. 1 < d) (dims sh),
      field_names =
        (case field_names sh of
           None \<Rightarrow> None
         | Some names \<Rightarrow> Some (map fst (filter (\<lambda>(field, d). 1 < d) (zip names (dims sh)))))\<rparr>"

definition stream_sample_shape :: "'f stream \<Rightarrow> shape_tuple \<times> 'f stream" where
  "stream_sample_shape s =
     (if squeeze s then
        (case squeezed_shape s of
           None \<Rightarrow> (squeezed (raw_sample_shape s),
                    s\<lparr>squeezed_shape := Some (squeezed (raw_sample_shape s))\<rparr>)
         | Some c \<Rightarrow>
             if dims c = [] then
               (squeezed (raw_sample_shape s),
                s\<lparr>squeezed_shape := Some (squeezed (raw_sample_shape s))\<rparr>)
             else (c, s))
      else (raw_sample_shape s, s))"

text \<open>
  \<open>_unsqueeze\<close>: walk over the unsqueezed sample shape with \<open>enumerate\<close> and insert a 1
  into the shape of the data at index \<open>i + 1\<close> for every dimension \<open>i\<close> that is 1.
\<close>

fun unsqueeze_loop :: "nat \<Rightarrow> nat list \<Rightarrow> nat list \<Rightarrow> nat list" where
  "unsqueeze_loop i [] new_shape = new_shape"
| "unsqueeze_loop i (d # rest) new_shape =
     unsqueeze_loop (i + 1) rest
       (if d = 1 then list_insert new_shape (i + 1) 1 else new_shape)"

definition unsqueeze :: "'f stream \<Rightarrow> 'e ndarray \<Rightarrow> exn + 'e ndarray" where
  "unsqueeze s data = reshape data (unsqueeze_loop 0 (dims (raw_sample_shape s)) (shape data))"

section \<open>base.py: VLBIStreamReaderBase\<close>

definition stop_time :: "'f stream \<Rightarrow> exn + rat" where
  "stop_time s =
     (case last_header s of
        Inl e \<Rightarrow> Inl e
      | Inr h \<Rightarrow> Inr (time h + of_int (samples_per_frame s) / sample_rate s))"

definition stream_size :: "'f stream \<Rightarrow> exn + int" where
  "stream_size s =
     (case stop_time s of
        Inl e \<Rightarrow> Inl e
      | Inr t \<Rightarrow> Inr (py_round ((t - start_time s) * sample_rate s)))"

text \<open>
  The \<open>offset\<close> argument of \<open>seek\<close>: an integer number of samples, a duration (a quantity
  of time) or an absolute time. The \<open>whence\<close> argument: an integer or a string.
\<close>

datatype seek_offset = Samples int | Elapsed rat | AtTime rat

datatype whence = WInt int | WStr string

text \<open>\<open>offset.__index__()\<close>: only a number of samples has an index.\<close>

fun index_of :: "seek_offset \<Rightarrow> exn + int" where
  "index_of (Samples n) = Inr n"
| "index_of (Elapsed d) = Inl (Exn TypeError [])"
| "index_of (AtTime t) = Inl (Exn AttributeError [])"

text \<open>
  \<open>offset - self.start_time\<close>: an absolute time minus the start time is a duration; a
  duration or a number minus an absolute time raises.
\<close>

fun minus_time :: "seek_offset \<Rightarrow> rat \<Rightarrow> exn + seek_offset" where
  "minus_time (AtTime t) t0 = Inr (Elapsed (t - t0))"
| "minus_time (Elapsed d) t0 = Inl (Exn TypeError [])"
| "minus_time (Samples n) t0 = Inl (Exn TypeError [])"

text \<open>
  \<open>int((offset * self.sample_rate).to(u.one).round())\<close>: a duration times the sample rate
  is a pure number, which is rounded; other products have no such conversion.
\<close>

fun to_samples :: "seek_offset \<Rightarrow> rat \<Rightarrow> exn + int" where
  "to_samples (Elapsed d) rate = Inr (py_round (d * rate))"
| "to_samples (AtTime t) rate = Inl (Exn TypeError [])"
| "to_samples (Samples n) rate = Inl (Exn UnitsError [])"

text \<open>
  The \<open>try\<close> statement of \<open>seek\<close>: when \<open>__index__\<close> raises, the start time is subtracted
  and \<open>whence\<close> set to 0, unless the subtraction raises too; then the offset is
  converted to samples.
\<close>

definition seek_resolve :: "'f stream \<Rightarrow> seek_offset \<Rightarrow> whence \<Rightarrow> exn + int \<times> whence" where
  "seek_resolve s off wh =
     (case index_of off of
        Inr n \<Rightarrow> Inr (n, wh)
      | Inl _ \<Rightarrow>
          (case (case minus_time off (start_time s) of
                   Inl _ \<Rightarrow> (off, wh)
                 | Inr d \<Rightarrow> (d, WInt 0)) of
             (off', wh') \<Rightarrow>
               (case to_samples off' (sample_rate s) of
                  Inl e \<Rightarrow> Inl e
                | Inr n \<Rightarrow> Inr (n, wh'))))"

definition seek :: "'f stream \<Rightarrow> seek_offset \<Rightarrow> whence \<Rightarrow> exn + int \<times> 'f stream" where
  "seek s off wh =
     (case seek_resolve s off wh of
        Inl e \<Rightarrow> Inl e
      | Inr (n, w) \<Rightarrow>
          if w = WInt 0 \<or> w = WStr ''start'' then Inr (n, s\<lparr>offset := n\<rparr>)
          else if w = WInt 1 \<or> w = WStr ''current'' then
            Inr (offset s + n, s\<lparr>offset := offset s + n\<rparr>)
          else if w = WInt 2 \<or> w = WStr ''end'' then
            (case stream_size s of
               Inl e \<Rightarrow> Inl e
             | Inr sz \<Rightarrow> Inr (sz + n, s\<lparr>offset := sz + n\<rparr>))
          else Inl (Exn ValueError [''invalid whence'']))"

subsection \<open>Frame-rate detection\<close>

definition file_size :: "nat \<Rightarrow> header list \<Rightarrow> nat" where
  "file_size hs fs = sum_list (map (\<lambda>f. hs + payloadsize f) fs)"

lemma header_at_bound:
  "header_at hs fs q = Inr h \<Longrightarrow> 0 < hs \<and> q + hs + payloadsize h \<le> file_size hs fs"
proof (induction fs arbitrary: q)
  case Nil
  then show ?case by simp
next
  case (Cons f fs)
  show ?case
  proof (cases "hs = 0 \<or> q = 0 \<or> q < hs + payloadsize f")
    case True
    with Cons.prems show ?thesis
      by (auto simp: file_size_def split: if_splits)
  next
    case False
    with Cons.prems have "header_at hs fs (q - (hs + payloadsize f)) = Inr h"
      by simp
    from Cons.IH [OF this]
    have "0 < hs" and "q - (hs + payloadsize f) + hs + payloadsize h \<le> file_size hs fs"
      by simp_all
    moreover have "file_size hs (f # fs) = hs + payloadsize f + file_size hs fs"
      by (simp add: file_size_def)
    ultimately show ?thesis
      using False by arith
  qed
qed

text \<open>
  The first loop of \<open>_get_frame_rate\<close>: skip the payload and read the next header for
  as long as the frame number is that of the first header.
\<close>

function scan_same :: "int \<Rightarrow> fh \<Rightarrow> header \<Rightarrow> (exn + header) \<times> fh" where
  "scan_same frame_nr0 f h =
     (if frame_nr h = frame_nr0 then
        (case fromfile (fh_seek_cur f (payloadsize h)) of
           (Inl e, f') \<Rightarrow> (Inl e, f')
         | (Inr h', f') \<Rightarrow> scan_same frame_nr0 f' h')
      else (Inr h, f))"
  by pat_completeness auto
termination
proof (relation "measure (\<lambda>(n0, f, h). file_size (hsize f) (frames f) - (pos f + payloadsize h))")
  show "wf (measure (\<lambda>(n0, f, h). file_size (hsize f) (frames f) - (pos f + payloadsize h)))"
    by simp
next
  fix frame_nr0 :: int and f :: fh and h :: header and x and f' and h'
  assume "(x, f') = fromfile (fh_seek_cur f (payloadsize h))" and "x = Inr h'"
  then have at: "header_at (hsize f) (frames f) (pos f + payloadsize h) = Inr h'"
    and f': "f' = f\<lparr>pos := pos f + payloadsize h + hsize f\<rparr>"
    by (auto simp: fromfile_def fh_seek_cur_def split: sum.splits)
  from header_at_bound [OF at]
  have "file_size (hsize f) (frames f) - (pos f + payloadsize h + hsize f + payloadsize h')
          < file_size (hsize f) (frames f) - (pos f + payloadsize h)"
    by arith
  with f' show "((frame_nr0, f', h'), (frame_nr0, f, h))
          \<in> measure (\<lambda>(n0, f, h). file_size (hsize f) (frames f) - (pos f + payloadsize h))"
    by simp
qed

text \<open>
  The second loop: up to the next header whose frame number is not positive, keeping
  the largest frame number met.
\<close>

function scan_max :: "fh \<Rightarrow> header \<Rightarrow> int \<Rightarrow> (exn + header \<times> int) \<times> fh" where
  "scan_max f h max_frame =
     (if 0 < frame_nr h then
        (case fromfile (fh_seek_cur f (payloadsize h)) of
           (Inl e, f') \<Rightarrow> (Inl e, f')
         | (Inr h', f') \<Rightarrow> scan_max f' h' (max (frame_nr h) max_frame))
      else (Inr (h, max_frame), f))"
  by pat_completeness auto
termination
proof (relation "measure (\<lambda>(f, h, m). file_size (hsize f) (frames f) - (pos f + payloadsize h))")
  show "wf (measure (\<lambda>(f, h, m). file_size (hsize f) (frames f) - (pos f + payloadsize h)))"
    by simp
next
  fix f :: fh and h :: header and max_frame :: int and x and f' and h'
  assume "(x, f') = fromfile (fh_seek_cur f (payloadsize h))" and "x = Inr h'"
  then have at: "header_at (hsize f) (frames f) (pos f + payloadsize h) = Inr h'"
    and f': "f' = f\<lparr>pos := pos f + payloadsize h + hsize f\<rparr>"
    by (auto simp: fromfile_def fh_seek_cur_def split: sum.splits)
  from header_at_bound [OF at]
  have "file_size (hsize f) (frames f) - (pos f + payloadsize h + hsize f + payloadsize h')
          < file_size (hsize f) (frames f) - (pos f + payloadsize h)"
    by arith
  with f' show "((f', h', max (frame_nr h) max_frame), (f, h, max_frame))
          \<in> measure (\<lambda>(f, h, m). file_size (hsize f) (frames f) - (pos f + payloadsize h))"
    by simp
qed

text \<open>
  \<open>_get_frame_rate(fh, header_template)\<close>. The result is the frame rate in Hz together
  with the warnings emitted, or the exception; the file handle is returned in the state
  in which the call leaves it.
\<close>

definition get_frame_rate :: "fh \<Rightarrow> (exn + int \<times> string list) \<times> fh" where
  "get_frame_rate f =
     (let oldpos = fh_tell f in
      case fromfile f of
        (Inl e, f1) \<Rightarrow> (Inl e, f1)
      | (Inr header, f1) \<Rightarrow>
          (let frame_nr0 = frame_nr header; sec0 = seconds header in
           case scan_same frame_nr0 f1 header of
             (Inl e, f2) \<Rightarrow> (Inl e, f2)
           | (Inr header, f2) \<Rightarrow>
               (case scan_max f2 header frame_nr0 of
                  (Inl e, f3) \<Rightarrow> (Inl e, f3)
                | (Inr (header, max_frame), f3) \<Rightarrow>
                    (Inr (max_frame + 1,
                          if seconds header \<noteq> sec0 + 1
                          then [''header time changed by more than 1 second?''] else []),
                     fh_seek_set f3 oldpos))))"

text \<open>
  \<open>VLBIStreamReaderBase.__init__\<close>: without a sample rate, the frame rate is detected
  and multiplied by the samples per frame; an exception gets one more argument and is
  raised again.
\<close>

definition detect_msg :: string where
  "detect_msg = ''the sample rate could not be auto-detected.''"

definition reader_init ::
  "fh \<Rightarrow> header \<Rightarrow> shape_tuple \<Rightarrow> nat \<Rightarrow> bool \<Rightarrow> nat list option \<Rightarrow> int \<Rightarrow> rat option \<Rightarrow> bool
     \<Rightarrow> exn + header \<Rightarrow> (exn + fh stream \<times> string list) \<times> fh" where
  "reader_init fh_raw' header0' sample_shape' bps' complex_data' thread_ids'
       samples_per_frame' sample_rate' squeeze' last' =
     (case sample_rate' of
        None \<Rightarrow>
          (case get_frame_rate fh_raw' of
             (Inl e, f') \<Rightarrow> (Inl (add_args e detect_msg), f')
           | (Inr (rate, warns), f') \<Rightarrow>
               (Inr (stream_init f' header0' sample_shape' bps' complex_data' thread_ids'
                       samples_per_frame' (of_int samples_per_frame' * of_int rate)
                       squeeze' last', warns), f'))
      | Some r \<Rightarrow>
          (Inr (stream_init fh_raw' header0' sample_shape' bps' complex_data' thread_ids'
                  samples_per_frame' r squeeze' last', []), fh_raw'))"

text \<open>
  Where the file pointer stands in a file of frames: at the boundary before the frames
  \<open>fs\<close> (after the frames \<open>pre\<close>), or just behind the header \<open>h\<close> of the frame that
  follows \<open>pre\<close>.
\<close>

definition at_boundary :: "fh \<Rightarrow> header list \<Rightarrow> header list \<Rightarrow> bool" where
  "at_boundary f pre fs \<longleftrightarrow>
     0 < hsize f \<and> frames f = pre @ fs \<and> pos f = file_size (hsize f) pre"

definition after_header :: "fh \<Rightarrow> header list \<Rightarrow> header \<Rightarrow> header list \<Rightarrow> bool" where
  "after_header f pre h fs \<longleftrightarrow>
     0 < hsize f \<and> frames f = pre @ h # fs \<and> pos f = file_size (hsize f) pre + hsize f"

text \<open>
  The headers \<open>fs\<close> read from the initial position never wrap: once the frame number
  has left that of the first header, every further header has a positive frame number.
\<close>

fun no_wrap :: "header list \<Rightarrow> bool" where
  "no_wrap [] = True"
| "no_wrap (h # t) =
     list_all (\<lambda>x. 0 < frame_nr x) (dropWhile (\<lambda>x. frame_nr x = frame_nr h) t)"

text \<open>An example header: frame \<open>n\<close> of second \<open>s\<close>, with 8 bytes of payload.\<close>

definition hdr :: "int \<Rightarrow> int \<Rightarrow> header" where
  "hdr n s = \<lparr>frame_nr = n, seconds = s, payloadsize = 8, time = of_int s\<rparr>"

section \<open>base.py: VLBIStreamWriterBase\<close>

text \<open>\<open>len(data)\<close>: the number of samples of an array.\<close>

definition array_len :: "'e ndarray \<Rightarrow> nat" where
  "array_len a = (case shape a of [] \<Rightarrow> 0 | n # ds \<Rightarrow> n)"

text \<open>
  \<open>close\<close>. The \<open>write\<close> method belongs to the format-specific writers and is a
  parameter: it takes the stream, the data and the \<open>invalid_data\<close> flag. \<open>close_raw\<close> is
  the \<open>close\<close> of the raw file handle, called by \<open>VLBIFileBase.close\<close>. The result is
  the list of warnings emitted and the closed stream, or the exception.
\<close>

definition close_msg :: string where
  "close_msg = ''closing with partial buffer remaining.  Writing padded frame, marked as invalid.''"

definition file_close :: "('f \<Rightarrow> 'f) \<Rightarrow> 'f stream \<Rightarrow> 'f stream" where
  "file_close close_raw s = s\<lparr>fh_raw := close_raw (fh_raw s)\<rparr>"

definition writer_close ::
  "('f stream \<Rightarrow> ('e::zero) ndarray \<Rightarrow> bool \<Rightarrow> exn + 'f stream) \<Rightarrow> ('f \<Rightarrow> 'f) \<Rightarrow> 'f stream
     \<Rightarrow> string list \<times> (exn + 'f stream)" where
  "writer_close write close_raw s =
     (if samples_per_frame s = 0 then ([], Inl (Exn ZeroDivisionError []))
      else
        let extra = offset s mod samples_per_frame s in
        if extra \<noteq> 0 then
          (case stream_sample_shape s of (shp, s1) \<Rightarrow>
             (case np_zeros (samples_per_frame s1 - extra) (dims shp) of
                Inl e \<Rightarrow> ([close_msg], Inl e)
              | Inr zeros \<Rightarrow>
                  (case write s1 zeros True of
                     Inl e \<Rightarrow> ([close_msg], Inl e)
                   | Inr s2 \<Rightarrow>
                       if samples_per_frame s2 = 0 then
                         ([close_msg], Inl (Exn ZeroDivisionError []))
                       else if offset s2 mod samples_per_frame s2 = 0 then
                         ([close_msg], Inr (file_close close_raw s2))
                       else ([close_msg], Inl (Exn AssertionError [])))))
        else ([], Inr (file_close close_raw s)))"

text \<open>An example \<open>write\<close>: it appends the data and the flag to a log kept in place of the raw file.\<close>

definition log_write ::
  "(int ndarray \<times> bool) list stream \<Rightarrow> int ndarray \<Rightarrow> bool \<Rightarrow> exn + (int ndarray \<times> bool) list stream" where
  "log_write st a invalid_data =
     Inr (st\<lparr>fh_raw := fh_raw st @ [(a, invalid_data)], offset := offset st + int (array_len a)\<rparr>)"

section \<open>payload.py: VLBIPayloadBase\<close>

text \<open>
  A payload: the array of 32-bit words (dtype \<open><u4\<close>, so the dtype check of the
  constructor cannot fail), the bits per sample component, the sample shape and the
  complex flag. \<open>fixed_size\<close> is the class attribute \<open>_size\<close>.
\<close>

record payload =
  words :: "32 word list"
  bps :: nat
  sample_shape :: "nat list"
  complex_data :: bool

definition bpfs :: "payload \<Rightarrow> nat" where
  "bpfs p = bps p * (if complex_data p then 2 else 1) * prod_list (sample_shape p)"

definition payload_size :: "payload \<Rightarrow> nat" where
  "payload_size p = length (words p) * 4"


definition nsample :: "payload \<Rightarrow> exn + int" where
  "nsample p =
     (if bpfs p = 0 then Inl (Exn ZeroDivisionError [])
      else Inr (int (payload_size p * 8 div bpfs p)))"

definition payload_shape :: "payload \<Rightarrow> exn + nat list" where
  "payload_shape p =
     (case nsample p of Inl e \<Rightarrow> Inl e | Inr n \<Rightarrow> Inr (nat n # sample_shape p))"

subsection \<open>Python slices and numpy indexing\<close>

text \<open>\<open>slice(start, stop, step)\<close> and its method \<open>indices(length)\<close>.\<close>

datatype pyslice = Slice "int option" "int option" "int option"

definition slice_indices :: "pyslice \<Rightarrow> int \<Rightarrow> exn + int \<times> int \<times> int" where
  "slice_indices s len =
     (case s of Slice start stop step' \<Rightarrow>
        let step = (case step' of None \<Rightarrow> 1 | Some k \<Rightarrow> k) in
        if step = 0 then Inl (Exn ValueError [''slice step cannot be zero''])
        else
          let lower = (if step < 0 then - 1 else 0);
              upper = (if step < 0 then len - 1 else len);
              start' = (case start of
                          None \<Rightarrow> if step < 0 then upper else lower
                        | Some a \<Rightarrow> if a < 0 then max (a + len) lower else min a upper);
              stop' = (case stop of
                         None \<Rightarrow> if step < 0 then lower else upper
                       | Some b \<Rightarrow> if b < 0 then max (b + len) lower else min b upper)
          in Inr (start', stop', step))"

text \<open>The indices of \<open>range(start, stop, step)\<close>, for a step that is not 0.\<close>

definition slice_range :: "int \<Rightarrow> int \<Rightarrow> int \<Rightarrow> int list" where
  "slice_range start stop step =
     (let n = (if 0 < step then (if start < stop then (stop - start - 1) div step + 1 else 0)
               else (if stop < start then (start - stop - 1) div (- step) + 1 else 0))
      in map (\<lambda>k. start + int k * step) [0..<nat n])"

text \<open>
  One entry of an index: an object with \<open>__index__\<close>, a slice, or an object that is
  neither (and that numpy does not accept either). An item is one such entry or a tuple
  of them.
\<close>

datatype axis_item = Idx int | Slc pyslice | Other

datatype item = Single axis_item | Tuple "axis_item list"

text \<open>Slicing a one-dimensional array: \<open>xs[s]\<close>.\<close>

definition slice_list :: "'a list \<Rightarrow> pyslice \<Rightarrow> exn + 'a list" where
  "slice_list xs s =
     (case slice_indices s (int (length xs)) of
        Inl e \<Rightarrow> Inl e
      | Inr (start, stop, step) \<Rightarrow> Inr (map (\<lambda>j. xs ! nat j) (slice_range start stop step)))"

text \<open>
  Basic indexing of an array with the shape \<open>ds\<close> and the elements \<open>xs\<close> by a list of
  entries, one per leading axis: an integer selects one block of the axis and removes
  the axis, a slice selects the blocks of its range. The shape of the result and the
  exceptions do not depend on the elements.
\<close>

definition block :: "nat list \<Rightarrow> 'e list \<Rightarrow> nat \<Rightarrow> 'e list" where
  "block ds xs j = take (prod_list ds) (drop (j * prod_list ds) xs)"

fun nd_index :: "nat list \<Rightarrow> 'e list \<Rightarrow> axis_item list \<Rightarrow> exn + nat list \<times> 'e list" where
  "nd_index ds xs [] = Inr (ds, xs)"
| "nd_index [] xs (i # is) = Inl (Exn IndexError [''too many indices for array''])"
| "nd_index (d # ds) xs (Idx k # is) =
     (let k' = (if k < 0 then k + int d else k) in
      if 0 \<le> k' \<and> k' < int d then nd_index ds (block ds xs (nat k')) is
      else Inl (Exn IndexError [''index out of bounds'']))"
| "nd_index (d # ds) xs (Slc s # is) =
     (case slice_indices s (int d) of
        Inl e \<Rightarrow> Inl e
      | Inr (start, stop, step) \<Rightarrow>
          (case nd_index ds [] is of
             Inl e \<Rightarrow> Inl e
           | Inr (ds', _) \<Rightarrow>
               Inr (length (slice_range start stop step) # ds',
                    concat (map (\<lambda>j. case nd_index ds (block ds xs (nat j)) is of
                                        Inl e \<Rightarrow> [] | Inr (_, ys) \<Rightarrow> ys)
                                (slice_range start stop step)))))"
| "nd_index (d # ds) xs (Other # is) = Inl (Exn IndexError [''invalid index''])"

definition nd_getitem :: "'e ndarray \<Rightarrow> item \<Rightarrow> exn + 'e ndarray" where
  "nd_getitem a it =
     (case nd_index (shape a) (elems a) (case it of Single i \<Rightarrow> [i] | Tuple is \<Rightarrow> is) of
        Inl e \<Rightarrow> Inl e
      | Inr (ds, xs) \<Rightarrow> Inr \<lparr>shape = ds, elems = xs\<rparr>)"

text \<open>
  \<open>view(self.dtype)\<close> on the one-dimensional array of decoded components: the real dtype
  keeps each component, the complex dtype joins each pair of components.
\<close>

datatype 'a sample_value = Real 'a | Cplx 'a 'a

fun pair_up :: "'a list \<Rightarrow> 'a sample_value list" where
  "pair_up (re # im # xs) = Cplx re im # pair_up xs"
| "pair_up xs = []"

definition view_dtype :: "bool \<Rightarrow> 'a list \<Rightarrow> exn + 'a sample_value list" where
  "view_dtype cplx xs =
     (if cplx then
        (if even (length xs) then Inr (pair_up xs)
         else Inl (Exn ValueError [''size must be a multiple of the element size'']))
      else Inr (map Real xs))"

text \<open>\<open>reshape(-1, *sample_shape)\<close> of a one-dimensional array.\<close>

definition reshape_infer :: "'e list \<Rightarrow> nat list \<Rightarrow> exn + 'e ndarray" where
  "reshape_infer xs ds =
     (if prod_list ds = 0 \<or> length xs mod prod_list ds \<noteq> 0
      then Inl (Exn ValueError [''cannot reshape array''])
      else Inr \<lparr>shape = (length xs div prod_list ds) # ds, elems = xs\<rparr>)"

subsection \<open>Mapping an item to a word slice and a data slice\<close>

text \<open>
  \<open>_item_to_slices\<close> for an item that is not a tuple. The first step resolves the item
  to \<open>(is_slice, start, stop, step, n)\<close>.
\<close>

definition resolve_item ::
  "payload \<Rightarrow> axis_item \<Rightarrow> exn + bool \<times> int \<times> int \<times> int option \<times> int" where
  "resolve_item p it =
     (case it of
        Slc s \<Rightarrow>
          (case nsample p of
             Inl e \<Rightarrow> Inl e
           | Inr ns \<Rightarrow>
               (case slice_indices s ns of
                  Inl e \<Rightarrow> Inl e
                | Inr (start, stop, step) \<Rightarrow>
                    Inr (True, start, stop, if step = 1 then None else Some step, stop - start)))
      | Idx i \<Rightarrow>
          (case nsample p of
             Inl e \<Rightarrow> Inl e
           | Inr ns \<Rightarrow>
               let i' = (if i < 0 then i + ns else i) in
               if \<not> (0 \<le> i' \<and> i' < ns) then Inl (Exn IndexError [''index out of range.''])
               else Inr (False, i', i' + 1, Some 1, 1))
      | Other \<Rightarrow> Inl (Exn TypeError [''object can only be indexed or sliced.'']))"

definition item_to_slices_single :: "payload \<Rightarrow> axis_item \<Rightarrow> exn + pyslice \<times> axis_item" where
  "item_to_slices_single p it =
     (case resolve_item p it of
        Inl e \<Rightarrow> Inl e
      | Inr (is_slice, start, stop, step, n) \<Rightarrow>
          (case nsample p of
             Inl e \<Rightarrow> Inl e
           | Inr ns \<Rightarrow>
               if n = ns then
                 Inr (Slice None None None,
                      if is_slice then Slc (Slice None None step) else Idx 0)
               else
                 let bpw = 8 * 4; bpfs' = int (bpfs p) in
                 if bpfs' mod bpw = 0 then
                   (let wpfs = bpfs' div bpw in
                    Inr (Slice (Some (start * wpfs)) (Some (stop * wpfs)) None,
                         if is_slice then Slc (Slice None None step) else Idx 0))
                 else if bpw mod bpfs' = 0 then
                   (let fspw = bpw div bpfs';
                        w_start = start div fspw; o_start = start mod fspw;
                        w_stop = stop div fspw; o_stop = stop mod fspw
                    in Inr (Slice (Some w_start)
                              (Some (if o_stop \<noteq> 0 then w_stop + 1 else w_stop)) None,
                            if is_slice then
                              Slc (Slice (if o_start \<noteq> 0 then Some o_start else None)
                                     (if o_stop \<noteq> 0 then Some (o_start + n) else None) step)
                            else Idx o_start))
                 else Inl (Exn TypeError [''Do not know how to extract data''])))"

text \<open>
  \<open>_item_to_slices\<close>: a tuple is mapped through its first entry, the other entries are
  handed on in the data slice.
\<close>

definition item_to_slices :: "payload \<Rightarrow> item \<Rightarrow> exn + pyslice \<times> item" where
  "item_to_slices p it =
     (case it of
        Single i \<Rightarrow>
          (case item_to_slices_single p i of
             Inl e \<Rightarrow> Inl e
           | Inr (words_slice, data_slice) \<Rightarrow> Inr (words_slice, Single data_slice))
      | Tuple [] \<Rightarrow> Inl (Exn IndexError [''tuple index out of range''])
      | Tuple (i # rest) \<Rightarrow>
          (case item_to_slices_single p i of
             Inl e \<Rightarrow> Inl e
           | Inr (words_slice, data_slice) \<Rightarrow> Inr (words_slice, Tuple (data_slice # rest))))"

subsection \<open>Indexing a payload\<close>

text \<open>
  \<open>__getitem__\<close>. The decoders are the class dictionary \<open>_decoders\<close>, keyed by the bits
  per sample; a decoder maps an array of words to the one-dimensional array of decoded
  components.
\<close>

definition lookup_decoder ::
  "(nat \<rightharpoonup> (32 word list \<Rightarrow> 'a list)) \<Rightarrow> payload \<Rightarrow> exn + (32 word list \<Rightarrow> 'a list)" where
  "lookup_decoder decoders p =
     (case decoders (bps p) of
        None \<Rightarrow> Inl (Exn KeyError [])
      | Some decoder \<Rightarrow> Inr decoder)"

definition getitem ::
  "(nat \<rightharpoonup> (32 word list \<Rightarrow> 'a list)) \<Rightarrow> payload \<Rightarrow> item \<Rightarrow> exn + 'a sample_value ndarray" where
  "getitem decoders p it =
     (case lookup_decoder decoders p of
        Inl e \<Rightarrow> Inl e
      | Inr decoder \<Rightarrow>
          if it = Tuple [] \<or> it = Single (Slc (Slice None None None)) then
            (case view_dtype (complex_data p) (decoder (words p)) of
               Inl e \<Rightarrow> Inl e
             | Inr data \<Rightarrow>
                 (case payload_shape p of
                    Inl e \<Rightarrow> Inl e
                  | Inr shp \<Rightarrow> reshape \<lparr>shape = [length data], elems = data\<rparr> shp))
          else
            (case item_to_slices p it of
               Inl e \<Rightarrow> Inl e
             | Inr (words_slice, data_slice) \<Rightarrow>
                 (case slice_list (words p) words_slice of
                    Inl e \<Rightarrow> Inl e
                  | Inr ws \<Rightarrow>
                      (case view_dtype (complex_data p) (decoder ws) of
                         Inl e \<Rightarrow> Inl e
                       | Inr data \<Rightarrow>
                           (case reshape_infer data (sample_shape p) of
                              Inl e \<Rightarrow> Inl e
                            | Inr arr \<Rightarrow> nd_getitem arr data_slice)))))"

subsection \<open>Decoders\<close>

text \<open>
  The decoders are defined by the format-specific subclasses. A decoder for \<open>bps\<close> bits
  per component works word by word: \<open>word_local decoder c\<close> says that decoding a
  concatenation gives the concatenation of the decoded parts and that every word gives
  \<open>c\<close> components (\<open>c * bps = 32\<close> when the words have no unused bits).
\<close>

definition word_local :: "(32 word list \<Rightarrow> 'a list) \<Rightarrow> nat \<Rightarrow> bool" where
  "word_local decoder c \<longleftrightarrow>
     (\<forall>xs ys. decoder (xs @ ys) = decoder xs @ decoder ys) \<and> (\<forall>w. length (decoder [w]) = c)"

text \<open>
  The payload \<open>p\<close> decodes as a whole (with such a decoder) to the elements \<open>E\<close>, which are
  \<open>NS\<close> complete samples.
\<close>

definition decoded ::
  "(32 word list \<Rightarrow> 'a list) \<Rightarrow> nat \<Rightarrow> payload \<Rightarrow> 'a sample_value list \<Rightarrow> nat \<Rightarrow> bool" where
  "decoded decoder c p E NS \<longleftrightarrow>
     word_local decoder c \<and> c * bps p = 32
     \<and> view_dtype (complex_data p) (decoder (words p)) = Inr E
     \<and> bpfs p \<noteq> 0 \<and> nsample p = Inr (int NS)
     \<and> NS * prod_list (sample_shape p) = length E"

text \<open>
  An example decoder table, for 8 bits per component: every word gives its four bytes,
  the least significant first.
\<close>

definition word_bytes :: "32 word \<Rightarrow> nat list" where
  "word_bytes w =
     [unat (take_bit 8 w), unat (take_bit 8 (drop_bit 8 w)), unat (take_bit 8 (drop_bit 16 w)),
      unat (drop_bit 24 w)]"

definition decode_bytes :: "32 word list \<Rightarrow> nat list" where
  "decode_bytes ws = concat (map word_bytes ws)"

definition example_decoders :: "nat \<rightharpoonup> (32 word list \<Rightarrow> nat list)" where
  "example_decoders = [8 \<mapsto> decode_bytes]"

section \<open>Properties of seek and tell\<close>

text \<open>
  C3. Seeking to sample \<open>n\<close> from the start sets the offset to \<open>n\<close> and returns \<open>n\<close>, and
  \<open>tell()\<close> without a unit then returns \<open>n\<close>. Nothing is clamped: the equation holds for
  every integer \<open>n\<close> (in particular for every \<open>n \<ge> 0\<close>) and every stream, whatever its
  size, and \<open>seek\<close> never looks at the size for this \<open>whence\<close>.
\<close>

theorem seek_start_tell:
  "seek s (Samples n) (WInt 0) = Inr (n, s\<lparr>offset := n\<rparr>)
   \<and> seek s (Samples n) (WStr ''start'') = Inr (n, s\<lparr>offset := n\<rparr>)
   \<and> tell (s\<lparr>offset := n\<rparr>) None = TOffset n"
  by (simp add: seek_def seek_resolve_def tell_def)


section \<open>Properties of the frame-rate detector\<close>

declare scan_same.simps [simp del] scan_max.simps [simp del]

lemma file_size_append: "file_size hs (xs @ ys) = file_size hs xs + file_size hs ys"
  by (simp add: file_size_def)

lemma file_size_Cons: "file_size hs (x # xs) = hs + payloadsize x + file_size hs xs"
  by (simp add: file_size_def)

lemma header_at_append:
  "0 < hs \<Longrightarrow> header_at hs (pre @ fs) (file_size hs pre + q) = header_at hs fs q"
  by (induction pre) (simp_all add: file_size_def)

lemma header_at_boundary:
  assumes "0 < hs"
  shows "header_at hs (pre @ fs) (file_size hs pre) =
           (case fs of [] \<Rightarrow> Inl (Exn EOFError []) | h # r \<Rightarrow> Inr h)"
  using header_at_append [OF assms, of pre fs 0] assms
  by (cases fs) simp_all

lemma advance_eof:
  assumes "after_header f pre h []"
  shows "fromfile (fh_seek_cur f (payloadsize h)) =
           (Inl (Exn EOFError []), f\<lparr>pos := file_size (hsize f) (frames f)\<rparr>)"
proof -
  from assms have hs: "0 < hsize f" and fr: "frames f = (pre @ [h]) @ []"
    and p: "pos f + payloadsize h = file_size (hsize f) (pre @ [h])"
    by (simp_all add: after_header_def file_size_def)
  have "header_at (hsize f) (frames f) (pos f + payloadsize h) = Inl (Exn EOFError [])"
    unfolding fr p using header_at_boundary [OF hs, of "pre @ [h]" "[]"] by simp
  then show ?thesis
    using fr p by (simp add: fromfile_def fh_seek_cur_def)
qed

lemma advance_next:
  assumes "after_header f pre h (h' # fs)"
  shows "\<exists>f'. fromfile (fh_seek_cur f (payloadsize h)) = (Inr h', f')
           \<and> after_header f' (pre @ [h]) h' fs
           \<and> frames f' = frames f \<and> hsize f' = hsize f"
proof -
  from assms have hs: "0 < hsize f" and fr: "frames f = (pre @ [h]) @ h' # fs"
    and p: "pos f + payloadsize h = file_size (hsize f) (pre @ [h])"
    by (simp_all add: after_header_def file_size_def)
  have "header_at (hsize f) (frames f) (pos f + payloadsize h) = Inr h'"
    unfolding fr p using header_at_boundary [OF hs, of "pre @ [h]" "h' # fs"] by simp
  then have "fromfile (fh_seek_cur f (payloadsize h))
               = (Inr h', f\<lparr>pos := pos f + payloadsize h + hsize f\<rparr>)"
    by (simp add: fromfile_def fh_seek_cur_def)
  moreover have "after_header (f\<lparr>pos := pos f + payloadsize h + hsize f\<rparr>) (pre @ [h]) h' fs"
    using hs fr p by (simp add: after_header_def)
  ultimately show ?thesis by simp
qed

lemma scan_same_eof:
  "after_header f pre h fs \<Longrightarrow> dropWhile (\<lambda>x. frame_nr x = n0) (h # fs) = [] \<Longrightarrow>
   scan_same n0 f h = (Inl (Exn EOFError []), f\<lparr>pos := file_size (hsize f) (frames f)\<rparr>)"
proof (induction fs arbitrary: f pre h)
  case Nil
  then have "frame_nr h = n0" by (simp split: if_splits)
  then show ?case
    using advance_eof [OF Nil(1)] by (subst scan_same.simps) simp
next
  case (Cons h' fs)
  from Cons.prems(2) have eq: "frame_nr h = n0"
    and rest: "dropWhile (\<lambda>x. frame_nr x = n0) (h' # fs) = []"
    by (simp_all split: if_splits)
  from advance_next [OF Cons.prems(1)] obtain f'
    where f': "fromfile (fh_seek_cur f (payloadsize h)) = (Inr h', f')"
      "after_header f' (pre @ [h]) h' fs" "frames f' = frames f" "hsize f' = hsize f"
    by blast
  have "scan_same n0 f h = scan_same n0 f' h'"
    using eq f'(1) by (subst scan_same.simps) simp
  with Cons.IH [OF f'(2) rest] f'(3,4) show ?case by simp
qed

lemma scan_same_found:
  "after_header f pre h fs \<Longrightarrow> dropWhile (\<lambda>x. frame_nr x = n0) (h # fs) = h1 # r \<Longrightarrow>
   \<exists>f'. scan_same n0 f h = (Inr h1, f')
        \<and> after_header f' (pre @ takeWhile (\<lambda>x. frame_nr x = n0) (h # fs)) h1 r
        \<and> frames f' = frames f \<and> hsize f' = hsize f"
proof (induction fs arbitrary: f pre h)
  case Nil
  then have "frame_nr h \<noteq> n0" and "h1 = h" and "r = []" by (simp_all split: if_splits)
  with Nil(1) show ?case
    by (subst scan_same.simps) simp
next
  case (Cons h' fs)
  show ?case
  proof (cases "frame_nr h = n0")
    case False
    with Cons.prems show ?thesis
      by (subst scan_same.simps) simp
  next
    case True
    with Cons.prems(2) have rest: "dropWhile (\<lambda>x. frame_nr x = n0) (h' # fs) = h1 # r"
      by simp
    from advance_next [OF Cons.prems(1)] obtain f'
      where f': "fromfile (fh_seek_cur f (payloadsize h)) = (Inr h', f')"
        "after_header f' (pre @ [h]) h' fs" "frames f' = frames f" "hsize f' = hsize f"
      by blast
    have "scan_same n0 f h = scan_same n0 f' h'"
      using True f'(1) by (subst scan_same.simps) simp
    with Cons.IH [OF f'(2) rest] f'(3,4) True show ?thesis by auto
  qed
qed

lemma scan_max_eof:
  "after_header f pre h fs \<Longrightarrow> dropWhile (\<lambda>x. 0 < frame_nr x) (h # fs) = [] \<Longrightarrow>
   scan_max f h m = (Inl (Exn EOFError []), f\<lparr>pos := file_size (hsize f) (frames f)\<rparr>)"
proof (induction fs arbitrary: f pre h m)
  case Nil
  then have "0 < frame_nr h" by (simp split: if_splits)
  then show ?case
    using advance_eof [OF Nil(1)] by (subst scan_max.simps) simp
next
  case (Cons h' fs)
  from Cons.prems(2) have eq: "0 < frame_nr h"
    and rest: "dropWhile (\<lambda>x. 0 < frame_nr x) (h' # fs) = []"
    by (simp_all split: if_splits)
  from advance_next [OF Cons.prems(1)] obtain f'
    where f': "fromfile (fh_seek_cur f (payloadsize h)) = (Inr h', f')"
      "after_header f' (pre @ [h]) h' fs" "frames f' = frames f" "hsize f' = hsize f"
    by blast
  have "scan_max f h m = scan_max f' h' (max (frame_nr h) m)"
    using eq f'(1) by (subst scan_max.simps) simp
  with Cons.IH [OF f'(2) rest] f'(3,4) show ?case by simp
qed

lemma scan_max_found:
  "after_header f pre h fs \<Longrightarrow> dropWhile (\<lambda>x. 0 < frame_nr x) (h # fs) = h1 # r \<Longrightarrow>
   \<exists>f'. scan_max f h m =
          (Inr (h1, fold (\<lambda>x. max (frame_nr x)) (takeWhile (\<lambda>x. 0 < frame_nr x) (h # fs)) m), f')
        \<and> frames f' = frames f \<and> hsize f' = hsize f"
proof (induction fs arbitrary: f pre h m)
  case Nil
  then have "\<not> 0 < frame_nr h" and "h1 = h" and "r = []" by (simp_all split: if_splits)
  with Nil(1) show ?case
    by (subst scan_max.simps) simp
next
  case (Cons h' fs)
  show ?case
  proof (cases "0 < frame_nr h")
    case False
    with Cons.prems show ?thesis
      by (subst scan_max.simps) simp
  next
    case True
    with Cons.prems(2) have rest: "dropWhile (\<lambda>x. 0 < frame_nr x) (h' # fs) = h1 # r"
      by simp
    from advance_next [OF Cons.prems(1)] obtain f'
      where f': "fromfile (fh_seek_cur f (payloadsize h)) = (Inr h', f')"
        "after_header f' (pre @ [h]) h' fs" "frames f' = frames f" "hsize f' = hsize f"
      by blast
    have "scan_max f h m = scan_max f' h' (max (frame_nr h) m)"
      using True f'(1) by (subst scan_max.simps) simp
    with Cons.IH [OF f'(2) rest, of "max (frame_nr h) m"] f'(3,4) True show ?thesis by auto
  qed
qed


lemma fromfile_boundary_eof:
  assumes "at_boundary f pre []"
  shows "fromfile f = (Inl (Exn EOFError []), f)"
proof -
  from assms have "0 < hsize f" "frames f = pre @ []" "pos f = file_size (hsize f) pre"
    by (simp_all add: at_boundary_def)
  then have "header_at (hsize f) (frames f) (pos f) = Inl (Exn EOFError [])"
    using header_at_boundary [of "hsize f" pre "[]"] by simp
  then show ?thesis by (simp add: fromfile_def)
qed

lemma fromfile_boundary_next:
  assumes "at_boundary f pre (h # t)"
  shows "\<exists>f1. fromfile f = (Inr h, f1) \<and> after_header f1 pre h t
            \<and> frames f1 = frames f \<and> hsize f1 = hsize f"
proof -
  from assms have *: "0 < hsize f" "frames f = pre @ h # t" "pos f = file_size (hsize f) pre"
    by (simp_all add: at_boundary_def)
  then have "header_at (hsize f) (frames f) (pos f) = Inr h"
    using header_at_boundary [of "hsize f" pre "h # t"] by simp
  then have "fromfile f = (Inr h, f\<lparr>pos := pos f + hsize f\<rparr>)"
    by (simp add: fromfile_def)
  moreover have "after_header (f\<lparr>pos := pos f + hsize f\<rparr>) pre h t"
    using * by (simp add: after_header_def)
  ultimately show ?thesis by simp
qed

lemma get_frame_rate_found:
  assumes b: "at_boundary f pre (h # t)"
    and d1: "dropWhile (\<lambda>x. frame_nr x = frame_nr h) (h # t) = h1 # r"
    and d2: "dropWhile (\<lambda>x. 0 < frame_nr x) (h1 # r) = h2 # r2"
  shows "get_frame_rate f =
           (Inr (fold (\<lambda>x. max (frame_nr x)) (takeWhile (\<lambda>x. 0 < frame_nr x) (h1 # r))
                   (frame_nr h) + 1,
                 if seconds h2 \<noteq> seconds h + 1
                 then [''header time changed by more than 1 second?''] else []), f)"
proof -
  from fromfile_boundary_next [OF b] obtain f1
    where f1: "fromfile f = (Inr h, f1)" "after_header f1 pre h t"
      "frames f1 = frames f" "hsize f1 = hsize f"
    by blast
  from scan_same_found [OF f1(2) d1] obtain f2
    where f2: "scan_same (frame_nr h) f1 h = (Inr h1, f2)"
      "after_header f2 (pre @ takeWhile (\<lambda>x. frame_nr x = frame_nr h) (h # t)) h1 r"
      "frames f2 = frames f1" "hsize f2 = hsize f1"
    by blast
  from scan_max_found [OF f2(2) d2, of "frame_nr h"] obtain f3
    where f3: "scan_max f2 h1 (frame_nr h) =
        (Inr (h2, fold (\<lambda>x. max (frame_nr x)) (takeWhile (\<lambda>x. 0 < frame_nr x) (h1 # r))
                    (frame_nr h)), f3)"
      "frames f3 = frames f2" "hsize f3 = hsize f2"
    by blast
  have "fh_seek_set f3 (pos f) = f"
    using f3(2,3) f2(3,4) f1(3,4) by (simp add: fh_seek_set_def)
  then show ?thesis
    using f1(1) f2(1) f3(1) by (simp add: get_frame_rate_def fh_tell_def)
qed

lemma get_frame_rate_eof:
  assumes b: "at_boundary f pre fs"
    and no_wrap: "no_wrap fs"
  shows "get_frame_rate f =
           (Inl (Exn EOFError []), f\<lparr>pos := file_size (hsize f) (frames f)\<rparr>)"
proof (cases fs)
  case Nil
  with b have "pos f = file_size (hsize f) (frames f)"
    by (simp add: at_boundary_def)
  then have "f\<lparr>pos := file_size (hsize f) (frames f)\<rparr> = f" by simp
  with fromfile_boundary_eof b Nil show ?thesis
    by (simp add: get_frame_rate_def)
next
  case (Cons h t)
  from fromfile_boundary_next b Cons obtain f1
    where f1: "fromfile f = (Inr h, f1)" "after_header f1 pre h t"
      "frames f1 = frames f" "hsize f1 = hsize f"
    by blast
  show ?thesis
  proof (cases "dropWhile (\<lambda>x. frame_nr x = frame_nr h) (h # t)")
    case Nil
    from scan_same_eof [OF f1(2) Nil] f1 show ?thesis
      by (simp add: get_frame_rate_def)
  next
    case (Cons h1 r)
    from scan_same_found [OF f1(2) Cons] obtain f2
      where f2: "scan_same (frame_nr h) f1 h = (Inr h1, f2)"
        "after_header f2 (pre @ takeWhile (\<lambda>x. frame_nr x = frame_nr h) (h # t)) h1 r"
        "frames f2 = frames f1" "hsize f2 = hsize f1"
      by blast
    from no_wrap \<open>fs = h # t\<close> Cons have "list_all (\<lambda>x. 0 < frame_nr x) (h1 # r)"
      by (simp split: if_splits)
    then have "dropWhile (\<lambda>x. 0 < frame_nr x) (h1 # r) = []"
      by (simp add: list_all_iff)
    from scan_max_eof [OF f2(2) this, of "frame_nr h"] f1 f2 show ?thesis
      by (simp add: get_frame_rate_def)
  qed
qed






lemma fold_max_upt:
  "fold max (map int [a..<b]) m = (if a < b then max m (int b - 1) else m)"
  by (induction b) auto

lemma fold_max_frame_nr:
  assumes "map frame_nr t = map int [a..<b]"
  shows "fold (\<lambda>x. max (frame_nr x)) t m = (if a < b then max m (int b - 1) else m)"
proof -
  have "fold (\<lambda>x. max (frame_nr x)) t m = fold max (map frame_nr t) m"
    by (simp add: fold_map comp_def)
  with assms show ?thesis by (simp add: fold_max_upt)
qed

text \<open>
  C2 (as amended). When the headers read from the initial position (a frame boundary)
  are \<open>R \<ge> 2\<close> headers with the frame numbers \<open>0, \<dots>, R - 1\<close> followed by one more header
  with frame number 0 (the first frame of the next second), the detector returns
  exactly \<open>R\<close>, one more than the largest frame number seen before the wrap, and the
  file handle is unchanged.
\<close>

theorem get_frame_rate_full_second:
  assumes hs: "0 < hsize f"
    and fr: "frames f = pre @ run @ z # rest"
    and p: "pos f = file_size (hsize f) pre"
    and run: "map frame_nr run = map int [0..<R]"
    and R: "2 \<le> R"
    and z: "frame_nr z = 0"
  shows "\<exists>w. get_frame_rate f = (Inr (int R, w), f)"
proof -
  from R have "[0..<R] = 0 # 1 # [2..<R]"
    by (simp add: upt_conv_Cons numeral_2_eq_2)
  with run obtain h h1 t where run': "run = h # h1 # t" and h: "frame_nr h = 0"
    and h1: "frame_nr h1 = 1" and t: "map frame_nr t = map int [2..<R]"
    by (auto simp: map_eq_Cons_conv)
  have pos_t: "0 < frame_nr x" if "x \<in> set t" for x
  proof -
    from that have "frame_nr x \<in> set (map frame_nr t)" by simp
    then show ?thesis unfolding t by auto
  qed
  have b: "at_boundary f pre (h # (h1 # t @ z # rest))"
    using hs fr p run' by (simp add: at_boundary_def)
  have d1: "dropWhile (\<lambda>x. frame_nr x = frame_nr h) (h # (h1 # t @ z # rest)) = h1 # (t @ z # rest)"
    using h h1 by simp
  have d2: "dropWhile (\<lambda>x. 0 < frame_nr x) (h1 # (t @ z # rest)) = z # rest"
    using h1 z pos_t by (simp add: dropWhile_append2)
  have tw: "takeWhile (\<lambda>x. 0 < frame_nr x) (h1 # (t @ z # rest)) = h1 # t"
    using h1 z pos_t by (simp add: takeWhile_tail)
  have "map frame_nr (h1 # t) = map int [1..<R]"
    using h1 t R by (simp add: upt_conv_Cons numeral_2_eq_2)
  from fold_max_frame_nr [OF this, of 0] R
  have "fold (\<lambda>x. max (frame_nr x)) (h1 # t) 0 = int R - 1"
    by simp
  with get_frame_rate_found [OF b d1 d2] tw h show ?thesis
    by simp
qed

theorem get_frame_rate_full_second_witness:
  "\<exists>w. get_frame_rate \<lparr>frames = [hdr 7 0, hdr 0 1, hdr 1 1, hdr 2 1, hdr 0 2, hdr 1 2],
                         hsize = 4, pos = 12\<rparr>
     = (Inr (3, w), \<lparr>frames = [hdr 7 0, hdr 0 1, hdr 1 1, hdr 2 1, hdr 0 2, hdr 1 2],
                     hsize = 4, pos = 12\<rparr>)"
  using get_frame_rate_full_second [of
      "\<lparr>frames = [hdr 7 0, hdr 0 1, hdr 1 1, hdr 2 1, hdr 0 2, hdr 1 2], hsize = 4, pos = 12\<rparr>"
      "[hdr 7 0]" "[hdr 0 1, hdr 1 1, hdr 2 1]" "hdr 0 2" "[hdr 1 2]" 3]
  by (simp add: hdr_def file_size_def upt_rec)

text \<open>
  The claim as stated fails for a stream of exactly one full second (frames 0, 1 at a
  rate of two frames per second: the header that shows the wrap is missing), and for a
  rate of one frame per second (every header has frame number 0, so the first loop
  never ends before the end of the file): both raise \<open>EOFError\<close>.
\<close>

theorem get_frame_rate_full_second_counterexample:
  "fst (get_frame_rate \<lparr>frames = [hdr 0 0, hdr 1 0], hsize = 4, pos = 0\<rparr>) = Inl (Exn EOFError [])
   \<and> fst (get_frame_rate \<lparr>frames = [hdr 0 0, hdr 0 1, hdr 0 2], hsize = 4, pos = 0\<rparr>)
       = Inl (Exn EOFError [])"
  by code_simp

text \<open>
  C7. When the headers read from the initial position (a frame boundary) end before
  the frame number wraps, the detector raises \<open>EOFError\<close>, the end-of-file exception of
  the header parse, and returns no rate; the constructor of the stream reader, called
  without a sample rate, raises the same exception again, with one more argument that
  says that the sample rate could not be detected.
\<close>

theorem get_frame_rate_no_wrap:
  assumes fr: "frames f = pre @ fs"
    and p: "pos f = file_size (hsize f) pre"
    and no_wrap: "no_wrap fs"
  shows "fst (get_frame_rate f) = Inl (Exn EOFError [])
         \<and> fst (reader_init f h0 shp b c ids spf None sq lh) = Inl (Exn EOFError [detect_msg])"
proof (cases "hsize f = 0")
  case True
  then have "header_at (hsize f) (frames f) (pos f) = Inl (Exn EOFError [])"
    by (cases "frames f") simp_all
  then have "get_frame_rate f = (Inl (Exn EOFError []), f)"
    by (simp add: get_frame_rate_def fromfile_def)
  then show ?thesis by (simp add: reader_init_def)
next
  case False
  with fr p have "at_boundary f pre fs" by (simp add: at_boundary_def)
  from get_frame_rate_eof [OF this no_wrap] show ?thesis
    by (simp add: reader_init_def)
qed

theorem get_frame_rate_no_wrap_witness:
  "no_wrap [hdr 1 5, hdr 2 5, hdr 3 5]
   \<and> fst (get_frame_rate \<lparr>frames = [hdr 0 5, hdr 1 5, hdr 2 5, hdr 3 5], hsize = 4, pos = 12\<rparr>)
       = Inl (Exn EOFError [])
   \<and> fst (reader_init \<lparr>frames = [hdr 0 5, hdr 1 5, hdr 2 5, hdr 3 5], hsize = 4, pos = 12\<rparr>
            (hdr 1 5) \<lparr>dims = [8], field_names = None\<rparr> 2 False None 20000 None True
            (Inr (hdr 3 5)))
       = Inl (Exn EOFError [detect_msg])"
  using get_frame_rate_no_wrap [of
      "\<lparr>frames = [hdr 0 5, hdr 1 5, hdr 2 5, hdr 3 5], hsize = 4, pos = 12\<rparr>"
      "[hdr 0 5]" "[hdr 1 5, hdr 2 5, hdr 3 5]"
      "hdr 1 5" "\<lparr>dims = [8], field_names = None\<rparr>" 2 False None 20000 True "Inr (hdr 3 5)"]
  by (simp add: hdr_def file_size_def)



section \<open>Properties of squeezing\<close>

lemma unsqueeze_loop_inv:
  "\<forall>d\<in>set ds. 0 < d \<Longrightarrow> length pre = i + 1 \<Longrightarrow>
   unsqueeze_loop i ds (pre @ filter (\<lambda>d. 1 < d) ds) = pre @ ds"
proof (induction ds arbitrary: i pre)
  case Nil
  then show ?case by simp
next
  case (Cons d ds)
  show ?case
  proof (cases "d = 1")
    case True
    have "list_insert (pre @ filter (\<lambda>d. 1 < d) ds) (i + 1) 1 = (pre @ [1]) @ filter (\<lambda>d. 1 < d) ds"
      using Cons.prems(2) by (simp add: list_insert_def)
    with Cons.IH [of "pre @ [1]" "i + 1"] Cons.prems True show ?thesis by simp
  next
    case False
    with Cons.prems have "1 < d" by auto
    with Cons.IH [of "pre @ [d]" "i + 1"] Cons.prems False show ?thesis by simp
  qed
qed

lemma prod_list_filter_gt1:
  "prod_list (filter (\<lambda>d. 1 < d) ds) = prod_list ds" if "\<forall>d\<in>set ds. 0 < (d::nat)"
  using that
proof (induction ds)
  case Nil
  then show ?case by simp
next
  case (Cons d ds)
  then have "d = 1 \<or> 1 < d" by auto
  with Cons show ?case by auto
qed

lemma stream_sample_shape_squeezed:
  assumes "squeeze s"
    and "squeezed_shape s = None \<or> squeezed_shape s = Some (squeezed (raw_sample_shape s))"
  shows "fst (stream_sample_shape s) = squeezed (raw_sample_shape s)"
  using assms by (auto simp: stream_sample_shape_def)

text \<open>
  C8. For a sample shape of positive dimensions, unsqueezing restores the shape: an
  array whose shape is \<open>n\<close> followed by the squeezed sample shape (the shape that the
  \<open>sample_shape\<close> property computes and returns on a stream that squeezes: every
  dimension that is 1 removed) is reshaped by \<open>_unsqueeze\<close> to \<open>n\<close> followed by the full
  sample shape, every unit dimension back at its position, with the same elements.
  This covers the shapes with a dimension above 1, and those without one.
\<close>

theorem unsqueeze_restores_shape:
  assumes pos: "\<forall>d\<in>set (dims (raw_sample_shape s)). 0 < d"
    and shp: "shape data = n # dims (squeezed (raw_sample_shape s))"
  shows "unsqueeze s data = Inr (data\<lparr>shape := n # dims (raw_sample_shape s)\<rparr>)"
proof -
  from shp have shp': "shape data = [n] @ filter (\<lambda>d. 1 < d) (dims (raw_sample_shape s))"
    by (simp add: squeezed_def)
  have loop: "unsqueeze_loop 0 (dims (raw_sample_shape s)) (shape data) = [n] @ dims (raw_sample_shape s)"
    unfolding shp' using pos by (intro unsqueeze_loop_inv) simp_all
  have "prod_list (shape data) = prod_list (n # dims (raw_sample_shape s))"
    unfolding shp' using prod_list_filter_gt1 [OF pos] by simp
  with loop show ?thesis
    by (simp add: unsqueeze_def reshape_def)
qed

theorem unsqueeze_restores_shape_witness:
  "fst (stream_sample_shape
     (stream_init () (hdr 0 0) \<lparr>dims = [1, 8, 1, 2], field_names = None\<rparr> 2 False None 4 32 True
        (Inr (hdr 0 0))))
   = \<lparr>dims = [8, 2], field_names = None\<rparr>
   \<and> unsqueeze
     (stream_init () (hdr 0 0) \<lparr>dims = [1, 8, 1, 2], field_names = None\<rparr> 2 False None 4 32 True
        (Inr (hdr 0 0)))
     \<lparr>shape = [3, 8, 2], elems = replicate 48 (0::int)\<rparr>
   = Inr \<lparr>shape = [3, 1, 8, 1, 2], elems = replicate 48 (0::int)\<rparr>"
  using unsqueeze_restores_shape [of
      "stream_init () (hdr 0 0) \<lparr>dims = [1, 8, 1, 2], field_names = None\<rparr> 2 False None 4 32 True
        (Inr (hdr 0 0))"
      "\<lparr>shape = [3, 8, 2], elems = replicate 48 (0::int)\<rparr>" 3]
  by (simp add: stream_init_def stream_sample_shape_def squeezed_def)

section \<open>Properties of closing a writer\<close>

lemma stream_sample_shape_frame:
  "offset (snd (stream_sample_shape s)) = offset s
   \<and> samples_per_frame (snd (stream_sample_shape s)) = samples_per_frame s"
  by (simp add: stream_sample_shape_def split: option.splits)

text \<open>
  C4. Let \<open>write\<close> accept its data and advance the offset by the number of samples it is
  given, and let \<open>samples_per_frame\<close> be positive. If the offset is a multiple of
  \<open>samples_per_frame\<close>, \<open>close\<close> emits no warning, does not call \<open>write\<close> and closes the
  raw file. Otherwise it emits one warning and calls \<open>write\<close> once, with
  \<open>invalid_data=True\<close> and an array of \<open>samples_per_frame - offset mod samples_per_frame\<close>
  samples that are all zero; after that call the offset is a multiple of
  \<open>samples_per_frame\<close>, and the raw file is closed.
\<close>

theorem writer_close_pads:
  fixes wr :: "'f stream \<Rightarrow> ('e::zero) ndarray \<Rightarrow> bool \<Rightarrow> exn + 'f stream"
  assumes spf: "0 < samples_per_frame s"
    and wr: "\<forall>st a invalid_data. \<exists>st'. wr st a invalid_data = Inr st'
               \<and> offset st' = offset st + int (array_len a)
               \<and> samples_per_frame st' = samples_per_frame st"
  shows "(offset s mod samples_per_frame s = 0 \<longrightarrow>
            writer_close wr close_raw s = ([], Inr (file_close close_raw s)))
         \<and> (offset s mod samples_per_frame s \<noteq> 0 \<longrightarrow>
            (\<exists>s2. wr (snd (stream_sample_shape s))
                     \<lparr>shape = nat (samples_per_frame s - offset s mod samples_per_frame s)
                                # dims (fst (stream_sample_shape s)),
                      elems = replicate
                                (nat (samples_per_frame s - offset s mod samples_per_frame s)
                                   * prod_list (dims (fst (stream_sample_shape s)))) 0\<rparr>
                     True = Inr s2
                \<and> offset s2 = offset s + (samples_per_frame s - offset s mod samples_per_frame s)
                \<and> offset s2 mod samples_per_frame s = 0
                \<and> writer_close wr close_raw s = ([close_msg], Inr (file_close close_raw s2))))"
proof (intro conjI impI)
  assume "offset s mod samples_per_frame s = 0"
  with spf show "writer_close wr close_raw s = ([], Inr (file_close close_raw s))"
    by (simp add: writer_close_def)
next
  let ?spf = "samples_per_frame s"
  let ?extra = "offset s mod ?spf"
  let ?shp = "fst (stream_sample_shape s)"
  let ?s1 = "snd (stream_sample_shape s)"
  let ?z = "\<lparr>shape = nat (?spf - ?extra) # dims ?shp,
             elems = replicate (nat (?spf - ?extra) * prod_list (dims ?shp)) (0::'e)\<rparr>"
  assume extra: "?extra \<noteq> 0"
  from spf have lt: "?extra < ?spf" and ge: "0 \<le> ?extra"
    by simp_all
  from wr obtain s2 where s2: "wr ?s1 ?z True = Inr s2"
    "offset s2 = offset ?s1 + int (array_len ?z)" "samples_per_frame s2 = samples_per_frame ?s1"
    by blast
  have off: "offset s2 = offset s + (?spf - ?extra)"
    using s2(2) lt stream_sample_shape_frame [of s] by (simp add: array_len_def)
  have "offset s2 = (offset s - ?extra) + ?spf"
    using off by simp
  moreover have "(offset s - ?extra) mod ?spf = 0"
    by (simp add: minus_mod_eq_mult_div)
  ultimately have aligned: "offset s2 mod ?spf = 0"
    by (metis mod_add_self2)
  have z: "np_zeros (samples_per_frame ?s1 - ?extra) (dims ?shp) = Inr ?z"
    using lt stream_sample_shape_frame [of s] by (simp add: np_zeros_def)
  have spf2: "samples_per_frame s2 = ?spf"
    using s2(3) stream_sample_shape_frame [of s] by simp
  have "writer_close wr close_raw s = ([close_msg], Inr (file_close close_raw s2))"
    using spf extra z s2(1) spf2 aligned
    by (simp add: writer_close_def case_prod_beta)
  with s2(1) off aligned
  show "\<exists>s2. wr ?s1 ?z True = Inr s2 \<and> offset s2 = offset s + (?spf - ?extra)
          \<and> offset s2 mod ?spf = 0
          \<and> writer_close wr close_raw s = ([close_msg], Inr (file_close close_raw s2))"
    by (intro exI [where x = s2]) simp
qed


theorem writer_close_pads_witness:
  "writer_close log_write id
     ((stream_init [] (hdr 0 0) \<lparr>dims = [1, 2], field_names = None\<rparr> 2 False None 4 32 True
         (Inr (hdr 0 0)))\<lparr>offset := 5\<rparr>)
   = ([close_msg],
      Inr ((stream_init [(\<lparr>shape = [3, 2], elems = [0, 0, 0, 0, 0, 0]\<rparr>, True)] (hdr 0 0)
              \<lparr>dims = [1, 2], field_names = None\<rparr> 2 False None 4 32 True (Inr (hdr 0 0)))
           \<lparr>offset := 8, squeezed_shape := Some \<lparr>dims = [2], field_names = None\<rparr>\<rparr>))
   \<and> writer_close log_write id
     ((stream_init [] (hdr 0 0) \<lparr>dims = [1, 2], field_names = None\<rparr> 2 False None 4 32 True
         (Inr (hdr 0 0)))\<lparr>offset := 8\<rparr>)
   = ([], Inr ((stream_init [] (hdr 0 0) \<lparr>dims = [1, 2], field_names = None\<rparr> 2 False None 4 32
                  True (Inr (hdr 0 0)))\<lparr>offset := 8\<rparr>))"
  using writer_close_pads [of
      "(stream_init [] (hdr 0 0) \<lparr>dims = [1, 2], field_names = None\<rparr> 2 False None 4 32 True
         (Inr (hdr 0 0)))\<lparr>offset := 5\<rparr>" log_write id]
    writer_close_pads [of
      "(stream_init [] (hdr 0 0) \<lparr>dims = [1, 2], field_names = None\<rparr> 2 False None 4 32 True
         (Inr (hdr 0 0)))\<lparr>offset := 8\<rparr>" log_write id]
  by (simp add: stream_init_def log_write_def stream_sample_shape_def squeezed_def file_close_def
      array_len_def numeral_eq_Suc)

section \<open>Properties of payload indexing\<close>

lemma map_nth_window:
  "a + n \<le> length xs \<Longrightarrow> map (\<lambda>k. xs ! (a + k)) [0..<n] = take n (drop a xs)"
  by (simp add: list_eq_iff_nth_eq)

lemma slice_range_step1:
  "0 \<le> a \<Longrightarrow> slice_range a b 1 = map (\<lambda>k. int (nat a + k)) [0..<nat (b - a)]"
  by (auto simp: slice_range_def)

lemma slice_indices_step1:
  "slice_indices (Slice a b None) len =
     Inr (case a of None \<Rightarrow> 0 | Some a \<Rightarrow> if a < 0 then max (a + len) 0 else min a len,
          case b of None \<Rightarrow> len | Some b \<Rightarrow> if b < 0 then max (b + len) 0 else min b len, 1)"
  by (simp add: slice_indices_def)

lemma slice_indices_step1_bounds:
  assumes "slice_indices (Slice a b None) len = Inr (a', b', st)" "0 \<le> len"
  shows "0 \<le> a' \<and> a' \<le> len \<and> 0 \<le> b' \<and> b' \<le> len \<and> st = 1"
  using assms by (auto simp: slice_indices_step1 split: option.splits if_splits)

lemma slice_list_window:
  assumes "0 \<le> x" "0 \<le> y"
  shows "slice_list ws (Slice (Some x) (Some y) None) = Inr (take (nat y - nat x) (drop (nat x) ws))"
proof -
  let ?L = "int (length ws)"
  let ?a = "min x ?L" and ?b = "min y ?L"
  have ind: "slice_indices (Slice (Some x) (Some y) None) ?L = Inr (?a, ?b, 1)"
    using assms by (simp add: slice_indices_step1)
  have a0: "0 \<le> ?a" using assms by simp
  have "map (\<lambda>j. ws ! nat j) (slice_range ?a ?b 1)
          = map (\<lambda>k. ws ! (nat ?a + k)) [0..<nat (?b - ?a)]"
    using a0 by (simp add: slice_range_step1 [OF a0] comp_def nat_add_distrib)
  also have "\<dots> = take (nat (?b - ?a)) (drop (nat ?a) ws)"
    using assms by (intro map_nth_window) (auto simp: min_def)
  also have "\<dots> = take (nat y - nat x) (drop (nat x) ws)"
  proof -
    have "nat (?b - ?a) = nat ?b - nat ?a"
      using assms by (intro nat_diff_distrib') simp_all
    moreover have "take (nat ?b - nat ?a) (drop (nat ?a) ws) = take (nat y - nat x) (drop (nat x) ws)"
      using assms by (cases "x \<le> ?L"; cases "y \<le> ?L") (simp_all add: min_def)
    ultimately show ?thesis by simp
  qed
  finally show ?thesis
    using ind by (simp add: slice_list_def)
qed

lemma slice_list_all: "slice_list ws (Slice None None None) = Inr ws"
proof -
  have "map (\<lambda>j. ws ! nat j) (slice_range 0 (int (length ws)) 1) = take (length ws) (drop 0 ws)"
    using map_nth_window [of 0 "length ws" ws] by (simp add: slice_range_step1 comp_def)
  then show ?thesis
    by (simp add: slice_list_def slice_indices_step1)
qed

lemma concat_blocks:
  "concat (map (\<lambda>k. take m (drop ((a + k) * m) xs)) [0..<n]) = take (n * m) (drop (a * m) xs)"
proof (induction n)
  case 0
  then show ?case by simp
next
  case (Suc n)
  have "concat (map (\<lambda>k. take m (drop ((a + k) * m) xs)) [0..<Suc n])
          = take (n * m) (drop (a * m) xs) @ take m (drop ((a + n) * m) xs)"
    using Suc by simp
  also have "drop ((a + n) * m) xs = drop (n * m) (drop (a * m) xs)"
    by (simp add: algebra_simps)
  also have "take (n * m) (drop (a * m) xs) @ take m (drop (n * m) (drop (a * m) xs))
               = take (n * m + m) (drop (a * m) xs)"
    by (simp only: take_add)
  also have "n * m + m = Suc n * m"
    by simp
  finally show ?case .
qed

lemma nd_index_rows:
  assumes "slice_indices s (int d) = Inr (a, b, 1)" "0 \<le> a"
  shows "nd_index (d # ds) xs [Slc s] =
           Inr (nat (b - a) # ds, take (nat (b - a) * prod_list ds) (drop (nat a * prod_list ds) xs))"
proof -
  have "concat (map (\<lambda>j. block ds xs (nat j)) (slice_range a b 1))
          = concat (map (\<lambda>k. take (prod_list ds) (drop ((nat a + k) * prod_list ds) xs))
                     [0..<nat (b - a)])"
    using assms(2) by (simp add: slice_range_step1 [OF assms(2)] comp_def block_def nat_add_distrib)
  also have "\<dots> = take (nat (b - a) * prod_list ds) (drop (nat a * prod_list ds) xs)"
    by (rule concat_blocks)
  finally show ?thesis
    using assms by (simp add: slice_range_step1)
qed


lemma word_local_length:
  assumes "word_local decoder c"
  shows "length (decoder ws) = c * length ws"
proof (induction ws)
  case Nil
  from assms have "decoder ([] @ []) = decoder [] @ decoder []"
    unfolding word_local_def by blast
  then have "length (decoder []) = length (decoder []) + length (decoder [])"
    by (metis append_Nil length_append)
  then show ?case by simp
next
  case (Cons w ws)
  from assms have "decoder ([w] @ ws) = decoder [w] @ decoder ws" and "length (decoder [w]) = c"
    unfolding word_local_def by blast+
  with Cons show ?case by simp
qed

lemma word_local_take:
  assumes "word_local decoder c"
  shows "decoder (take n ws) = take (c * n) (decoder ws)"
proof -
  from assms have "decoder (take n ws @ drop n ws) = decoder (take n ws) @ decoder (drop n ws)"
    unfolding word_local_def by blast
  then have split: "decoder ws = decoder (take n ws) @ decoder (drop n ws)"
    by simp
  have len: "length (decoder (take n ws)) = c * min (length ws) n"
    using word_local_length [OF assms, of "take n ws"] by simp
  show ?thesis
  proof (cases "n \<le> length ws")
    case True
    with len have "length (decoder (take n ws)) = c * n" by (simp add: min_def)
    then show ?thesis by (subst split) simp
  next
    case False
    then have "c * length ws \<le> c * n" by simp
    with False show ?thesis
      using word_local_length [OF assms, of ws] by simp
  qed
qed

lemma word_local_drop:
  assumes "word_local decoder c"
  shows "decoder (drop n ws) = drop (c * n) (decoder ws)"
proof -
  from assms have "decoder (take n ws @ drop n ws) = decoder (take n ws) @ decoder (drop n ws)"
    unfolding word_local_def by blast
  then have split: "decoder ws = decoder (take n ws) @ decoder (drop n ws)"
    by simp
  have len: "length (decoder (take n ws)) = c * min (length ws) n"
    using word_local_length [OF assms, of "take n ws"] by simp
  show ?thesis
  proof (cases "n \<le> length ws")
    case True
    with len have "length (decoder (take n ws)) = c * n" by (simp add: min_def)
    then show ?thesis by (subst split) simp
  next
    case False
    then have "c * length ws \<le> c * n" by simp
    with False show ?thesis
      using word_local_length [OF assms, of ws] word_local_length [OF assms, of "[]"] by simp
  qed
qed

lemma pair_up_drop: "pair_up (drop (2 * n) xs) = drop n (pair_up xs)"
proof (induction n arbitrary: xs)
  case 0
  show ?case by simp
next
  case (Suc n)
  show ?case
  proof (cases xs rule: pair_up.cases)
    case (1 re im ys)
    with Suc [of ys] show ?thesis by simp
  qed simp_all
qed

lemma pair_up_take: "pair_up (take (2 * n) xs) = take n (pair_up xs)"
proof (induction n arbitrary: xs)
  case 0
  show ?case by simp
next
  case (Suc n)
  show ?case
  proof (cases xs rule: pair_up.cases)
    case (1 re im ys)
    with Suc [of ys] show ?thesis by simp
  qed simp_all
qed

lemma length_pair_up: "length (pair_up xs) = length xs div 2"
  by (induction xs rule: pair_up.induct) simp_all

lemma view_dtype_length:
  "view_dtype cx xs = Inr E \<Longrightarrow> (if cx then 2 else 1) * length E = length xs"
  by (auto simp: view_dtype_def length_pair_up split: if_splits)

lemma view_dtype_window:
  assumes "view_dtype cx xs = Inr E"
  shows "view_dtype cx (take ((if cx then 2 else 1) * j) (drop ((if cx then 2 else 1) * i) xs))
           = Inr (take j (drop i E))"
proof (cases cx)
  case False
  with assms show ?thesis
    by (auto simp: view_dtype_def take_map drop_map)
next
  case True
  with assms have ev: "even (length xs)" and E: "E = pair_up xs"
    by (auto simp: view_dtype_def split: if_splits)
  have "even (length (take (2 * j) (drop (2 * i) xs)))"
    using ev by (simp add: min_def)
  with True E show ?thesis
    by (simp add: view_dtype_def pair_up_take pair_up_drop)
qed

lemma rows_of_rows:
  "take (X * m) (drop (S * m) (take (C * m) (drop (F * m) E)))
     = take (min X (C - S) * m) (drop ((S + F) * m) (E::'a list))"
proof -
  have "min (X * m) (C * m - S * m) = min X (C - S) * m"
    by (simp add: nat_mult_min_left diff_mult_distrib)
  then show ?thesis
    by (simp add: drop_take add_mult_distrib add.commute)
qed


lemma decodedD:
  assumes "decoded decoder c p E NS"
  shows "word_local decoder c" and "c * bps p = 32"
    and "view_dtype (complex_data p) (decoder (words p)) = Inr E"
    and "bpfs p \<noteq> 0" and "nsample p = Inr (int NS)"
    and "NS * prod_list (sample_shape p) = length E"
  using assms unfolding decoded_def by blast+

lemma decoded_nsample:
  assumes "decoded decoder c p E NS"
  shows "nsample p = Inr (int NS)"
  using assms by (rule decodedD)

lemma decoded_components:
  assumes "decoded decoder c p E NS"
  shows "(if complex_data p then 2 else 1) * (NS * prod_list (sample_shape p))
           = c * length (words p)"
  using view_dtype_length [OF decodedD(3) [OF assms]]
    word_local_length [OF decodedD(1) [OF assms], of "words p"] decodedD(6) [OF assms]
  by simp

lemma decoded_exact:
  assumes "decoded decoder c p E NS"
  shows "32 * length (words p) = bpfs p * NS"
proof -
  let ?k = "if complex_data p then 2 else 1 :: nat"
  from assms have c: "c * bps p = 32" by (rule decodedD)
  have "32 * length (words p) = bps p * (c * length (words p))"
    using c by (simp add: mult.assoc [symmetric] mult.commute)
  also have "\<dots> = bps p * (?k * (NS * prod_list (sample_shape p)))"
    using decoded_components [OF assms] by simp
  also have "\<dots> = bpfs p * NS"
    by (simp add: bpfs_def)
  finally show ?thesis .
qed

lemma decoded_window:
  assumes d: "decoded decoder c p E NS"
    and q1: "c * x = (if complex_data p then 2 else 1) * q1"
    and q2: "c * (y - x) = (if complex_data p then 2 else 1) * q2"
  shows "\<exists>W. slice_list (words p) (Slice (Some (int x)) (Some (int y)) None) = Inr W
           \<and> view_dtype (complex_data p) (decoder W) = Inr (take q2 (drop q1 E))"
proof -
  from d have wl: "word_local decoder c"
    and v: "view_dtype (complex_data p) (decoder (words p)) = Inr E"
    by (rule decodedD)+
  have "slice_list (words p) (Slice (Some (int x)) (Some (int y)) None)
          = Inr (take (y - x) (drop x (words p)))"
    using slice_list_window [of "int x" "int y" "words p"] by simp
  moreover have "decoder (take (y - x) (drop x (words p)))
      = take ((if complex_data p then 2 else 1) * q2)
          (drop ((if complex_data p then 2 else 1) * q1) (decoder (words p)))"
    by (simp only: word_local_take [OF wl] word_local_drop [OF wl] q1 q2)
  ultimately show ?thesis
    using view_dtype_window [OF v, of q2 q1] by simp
qed

lemma nd_getitem_rows:
  assumes "slice_indices s (int d) = Inr (a, b, 1)" "0 \<le> a"
  shows "nd_getitem \<lparr>shape = d # ds, elems = xs\<rparr> (Single (Slc s)) =
           Inr \<lparr>shape = nat (b - a) # ds,
                elems = take (nat (b - a) * prod_list ds) (drop (nat a * prod_list ds) xs)\<rparr>"
  using nd_index_rows [OF assms, of ds xs] by (simp add: nd_getitem_def)

lemma slice_not_all:
  assumes "slice_indices s (int NS) = Inr (a, b, st)" "b - a \<noteq> int NS"
  shows "s \<noteq> Slice None None None"
  using assms by (auto simp: slice_indices_step1)

lemma resolve_slice:
  assumes "nsample p = Inr (int NS)" "slice_indices s (int NS) = Inr (a, b, 1)"
  shows "resolve_item p (Slc s) = Inr (True, a, b, None, b - a)"
  using assms by (simp add: resolve_item_def)

lemma getitem_wpfs:
  assumes d: "decoded decoder c p E NS" and dec: "decoders (bps p) = Some decoder"
    and lay: "bpfs p mod 32 = 0"
    and ind: "slice_indices s (int NS) = Inr (int A, int B, 1)" and le: "A \<le> NS" "B \<le> NS"
    and ne: "int B - int A \<noteq> int NS"
  shows "getitem decoders p (Single (Slc s)) =
           Inr \<lparr>shape = (B - A) # sample_shape p,
                elems = take ((B - A) * prod_list (sample_shape p))
                          (drop (A * prod_list (sample_shape p)) E)\<rparr>"
proof -
  let ?k = "if complex_data p then 2 else 1 :: nat"
  let ?m = "prod_list (sample_shape p)"
  define Wp where "Wp = bpfs p div 32"
  from lay have bp: "bpfs p = 32 * Wp" by (auto simp: Wp_def)
  from d have c: "c * bps p = 32" and nz: "bpfs p \<noteq> 0" and len: "NS * ?m = length E"
    by (rule decodedD)+
  have "bps p * (?k * ?m) = bpfs p"
    by (simp add: bpfs_def)
  also have "\<dots> = (c * bps p) * Wp"
    using bp c by simp
  also have "\<dots> = bps p * (c * Wp)"
    by (simp only: mult.assoc mult.left_commute)
  finally have "bps p * (?k * ?m) = bps p * (c * Wp)" .
  moreover from c have "bps p \<noteq> 0" by (cases "bps p = 0") simp_all
  ultimately have km: "?k * ?m = c * Wp" by simp
  have m0: "?m \<noteq> 0" using nz by (auto simp: bpfs_def)
  have lay': "int (bpfs p) mod 32 = 0" using bp by simp
  have wp': "int (bpfs p) div 32 = int Wp" using bp by simp
  have its: "item_to_slices p (Single (Slc s)) =
      Inr (Slice (Some (int (A * Wp))) (Some (int (B * Wp))) None, Single (Slc (Slice None None None)))"
    using resolve_slice [OF decoded_nsample [OF d] ind] decoded_nsample [OF d] ne lay' wp'
    by (simp add: item_to_slices_def item_to_slices_single_def Let_def)
  have q: "c * (n * Wp) = ?k * (n * ?m)" for n
  proof -
    have "c * (n * Wp) = n * (c * Wp)" by (simp only: mult.left_commute)
    also have "\<dots> = n * (?k * ?m)" by (simp only: km)
    also have "\<dots> = ?k * (n * ?m)" by (simp only: mult.left_commute)
    finally show ?thesis .
  qed
  have q1: "c * (A * Wp) = ?k * (A * ?m)"
    by (rule q)
  have q2: "c * (B * Wp - A * Wp) = ?k * ((B - A) * ?m)"
    using q [of "B - A"] by (simp only: diff_mult_distrib)
  from decoded_window [OF d q1 q2] obtain W
    where W: "slice_list (words p) (Slice (Some (int (A * Wp))) (Some (int (B * Wp))) None) = Inr W"
      "view_dtype (complex_data p) (decoder W) = Inr (take ((B - A) * ?m) (drop (A * ?m) E))"
    by blast
  let ?E' = "take ((B - A) * ?m) (drop (A * ?m) E)"
  have "A * ?m + (B - A) * ?m \<le> NS * ?m"
    using le by (cases "A \<le> B") (simp_all add: add_mult_distrib [symmetric])
  then have lenE': "length ?E' = (B - A) * ?m"
    using len by simp
  then have rs: "reshape_infer ?E' (sample_shape p) = Inr \<lparr>shape = (B - A) # sample_shape p, elems = ?E'\<rparr>"
    using m0 by (simp add: reshape_infer_def)
  have "getitem decoders p (Single (Slc s))
          = nd_getitem \<lparr>shape = (B - A) # sample_shape p, elems = ?E'\<rparr>
              (Single (Slc (Slice None None None)))"
    using dec its W rs slice_not_all [OF ind ne] by (simp add: getitem_def lookup_decoder_def)
  also have "\<dots> = Inr \<lparr>shape = (B - A) # sample_shape p, elems = take ((B - A) * ?m) ?E'\<rparr>"
    using nd_getitem_rows [of "Slice None None None" "B - A" 0 "int (B - A)" "sample_shape p" ?E']
    by (simp add: slice_indices_step1)
  finally show ?thesis by simp
qed

lemma fspw_indices:
  fixes f A B :: nat
  assumes f: "0 < f"
  defines "cnt \<equiv> f * ((if B mod f \<noteq> 0 then B div f + 1 else B div f) - A div f)"
  shows "\<exists>s1 s2. slice_indices
            (Slice (if A mod f \<noteq> 0 then Some (int (A mod f)) else None)
                   (if B mod f \<noteq> 0 then Some (int (A mod f) + (int B - int A)) else None) None)
            (int cnt) = Inr (int s1, int s2, 1)
          \<and> s2 - s1 = B - A \<and> (B \<le> A \<or> s1 + f * (A div f) = A) \<and> B - A \<le> cnt - s1"
proof -
  define qa ra qb rb where "qa = A div f" and "ra = A mod f" and "qb = B div f" and "rb = B mod f"
  have A: "A = f * qa + ra" and ra: "ra < f" and B: "B = f * qb + rb" and rb: "rb < f"
    using f by (simp_all add: qa_def ra_def qb_def rb_def)
  have cnt: "cnt = f * ((if rb \<noteq> 0 then qb + 1 else qb) - qa)"
    by (simp add: cnt_def qa_def qb_def rb_def)
  have mono: "qa \<le> qb \<Longrightarrow> f * qa \<le> f * qb" by simp
  have q_le: "A \<le> B \<Longrightarrow> qa \<le> qb"
    unfolding qa_def qb_def by (rule div_le_mono)
  have q_ge: "B \<le> A \<Longrightarrow> qb \<le> qa"
    unfolding qa_def qb_def by (rule div_le_mono)
  let ?S = "Slice (if ra \<noteq> 0 then Some (int ra) else None)
                  (if rb \<noteq> 0 then Some (int ra + (int B - int A)) else None) None"
  have goal: "\<exists>s1 s2. slice_indices ?S (int cnt) = Inr (int s1, int s2, 1)
          \<and> s2 - s1 = B - A \<and> (B \<le> A \<or> s1 + f * qa = A) \<and> B - A \<le> cnt - s1"
  proof (cases "A \<le> B")
    case True
    note le = q_le [OF True]
    have fq: "f * qa \<le> f * qb" using le by simp
    show ?thesis
    proof (cases "rb = 0")
      case True
      have c: "cnt = f * qb - f * qa"
        using True cnt by (simp add: diff_mult_distrib2)
      have rc: "ra \<le> cnt"
        using \<open>A \<le> B\<close> A B True c fq by linarith
      have "slice_indices ?S (int cnt) = Inr (int ra, int cnt, 1)"
        using True rc by (simp add: slice_indices_step1)
      moreover have "cnt - ra = B - A" using A B True c fq by linarith
      moreover have "ra + f * qa = A" using A by simp
      ultimately show ?thesis by (intro exI [of _ ra] exI [of _ cnt]) simp
    next
      case False
      have c: "cnt = f * qb + f - f * qa"
        using False cnt le by (simp add: diff_mult_distrib2 distrib_left)
      have rc: "ra \<le> cnt"
        using ra c fq by linarith
      have v: "int ra + (int B - int A) = int (f * qb + rb - f * qa)"
        using A B fq by linarith
      have vc: "f * qb + rb - f * qa \<le> cnt"
        using c rb fq by linarith
      have "slice_indices ?S (int cnt) = Inr (int ra, int (f * qb + rb - f * qa), 1)"
        using False rc vc by (simp add: slice_indices_step1 v del: of_nat_diff of_nat_add of_nat_mult)
      moreover have "(f * qb + rb - f * qa) - ra = B - A" using A B fq by linarith
      moreover have "ra + f * qa = A" using A by simp
      moreover have "B - A \<le> cnt - ra" using A B c fq rb by linarith
      ultimately show ?thesis
        by (intro exI [of _ ra] exI [of _ "f * qb + rb - f * qa"]) simp
    qed
  next
    case False
    then have lt: "B < A" by simp
    then have ge: "qb \<le> qa" using q_ge by simp
    show ?thesis
    proof (cases "(if rb \<noteq> 0 then qb + 1 else qb) \<le> qa")
      case True
      then have c0: "cnt = 0" using cnt by simp
      have "slice_indices ?S (int cnt) = Inr (int 0, int 0, 1)"
        using c0 by (auto simp: slice_indices_step1)
      with lt show ?thesis
        by (intro exI [of _ 0]) simp
    next
      case False
      with ge have rb0: "rb \<noteq> 0" and eq: "qb = qa"
        by (auto split: if_splits)
      then have c: "cnt = f" using cnt by simp
      have rlt: "rb < ra" using lt A B eq by simp
      have v: "int ra + (int B - int A) = int rb"
        using A B eq by simp
      have "slice_indices ?S (int cnt) = Inr (int ra, int rb, 1)"
        using rb0 rlt ra rb c by (simp add: slice_indices_step1 v)
      with lt rlt show ?thesis
        by (intro exI [of _ ra] exI [of _ rb]) simp
    qed
  qed
  then show ?thesis
    unfolding qa_def ra_def qb_def rb_def .
qed

lemma getitem_fspw:
  assumes d: "decoded decoder c p E NS" and dec: "decoders (bps p) = Some decoder"
    and lay1: "bpfs p mod 32 \<noteq> 0" and lay2: "32 mod bpfs p = 0"
    and ind: "slice_indices s (int NS) = Inr (int A, int B, 1)" and le: "A \<le> NS" "B \<le> NS"
    and ne: "int B - int A \<noteq> int NS"
  shows "getitem decoders p (Single (Slc s)) =
           Inr \<lparr>shape = (B - A) # sample_shape p,
                elems = take ((B - A) * prod_list (sample_shape p))
                          (drop (A * prod_list (sample_shape p)) E)\<rparr>"
proof -
  let ?k = "if complex_data p then 2 else 1 :: nat"
  let ?m = "prod_list (sample_shape p)"
  let ?L = "length (words p)"
  define f where "f = 32 div bpfs p"
  define x where "x = A div f"
  define y where "y = (if B mod f \<noteq> 0 then B div f + 1 else B div f)"
  define cnt where "cnt = f * (y - x)"
  from d have c: "c * bps p = 32" and nz: "bpfs p \<noteq> 0" and len: "NS * ?m = length E"
    by (rule decodedD)+
  from lay2 have bp: "32 = f * bpfs p" by (auto simp: f_def)
  with nz have f0: "0 < f" by (cases "f = 0") simp_all
  have m0: "?m \<noteq> 0" using nz by (auto simp: bpfs_def)
  have "bps p * c = bps p * (f * (?k * ?m))"
  proof -
    have "bps p * c = f * bpfs p" using c bp by (simp add: mult.commute)
    also have "\<dots> = f * (bps p * (?k * ?m))" by (simp add: bpfs_def)
    also have "\<dots> = bps p * (f * (?k * ?m))" by (simp only: mult.left_commute)
    finally show ?thesis .
  qed
  moreover from c have "bps p \<noteq> 0" by (cases "bps p = 0") simp_all
  ultimately have ck: "c = f * (?k * ?m)" by simp
  have "bpfs p * NS = bpfs p * (f * ?L)"
  proof -
    have "bpfs p * NS = 32 * ?L"
      using decoded_exact [OF d] by simp
    also have "\<dots> = (f * bpfs p) * ?L"
      by (simp only: bp)
    also have "\<dots> = bpfs p * (f * ?L)" by (simp only: mult.assoc mult.left_commute)
    finally show ?thesis .
  qed
  with nz have NS: "NS = f * ?L" by simp
  have q: "c * n = ?k * ((f * n) * ?m)" for n
  proof -
    have "c * n = (f * (?k * ?m)) * n" by (simp only: ck)
    also have "\<dots> = ?k * ((f * n) * ?m)" by (simp only: mult.assoc mult.left_commute mult.commute)
    finally show ?thesis .
  qed
  have i1: "32 div int (bpfs p) = int f"
    unfolding f_def by (simp add: zdiv_int)
  have i2: "32 mod int (bpfs p) = 0"
    using lay2 by presburger
  have i3: "int (bpfs p) mod 32 \<noteq> 0"
    using lay1 by presburger
  let ?ds = "Slice (if A mod f \<noteq> 0 then Some (int (A mod f)) else None)
               (if B mod f \<noteq> 0 then Some (int (A mod f) + (int B - int A)) else None) None"
  have its: "item_to_slices p (Single (Slc s)) =
      Inr (Slice (Some (int x)) (Some (int y)) None, Single (Slc ?ds))"
    using resolve_slice [OF decoded_nsample [OF d] ind] decoded_nsample [OF d] ne i1 i2 i3
    by (simp add: item_to_slices_def item_to_slices_single_def Let_def x_def y_def
          flip: of_nat_mod of_nat_div)
  from decoded_window [OF d q [of x], of y "(f * (y - x)) * ?m"] q [of "y - x"] obtain W
    where W: "slice_list (words p) (Slice (Some (int x)) (Some (int y)) None) = Inr W"
      "view_dtype (complex_data p) (decoder W) = Inr (take (cnt * ?m) (drop ((f * x) * ?m) E))"
    unfolding cnt_def by blast
  let ?E' = "take (cnt * ?m) (drop ((f * x) * ?m) E)"
  have yL: "y \<le> ?L"
  proof -
    have "B div f \<le> (f * ?L) div f" using le(2) NS by (intro div_le_mono) simp
    then have "B div f \<le> ?L" using f0 by simp
    moreover have "B div f < ?L" if "B mod f \<noteq> 0"
    proof -
      from that le(2) NS have "B < f * ?L"
        by (cases "B = f * ?L") simp_all
      then have "B < ?L * f" by (simp add: mult.commute)
      then show ?thesis by (rule less_mult_imp_div_less)
    qed
    ultimately show ?thesis by (auto simp: y_def)
  qed
  have "f * x + cnt \<le> NS"
  proof (cases "x \<le> y")
    case True
    then have "f * x + cnt = f * y" by (simp add: cnt_def distrib_left [symmetric])
    with yL NS show ?thesis by simp
  next
    case False
    then have "cnt = 0" by (simp add: cnt_def)
    moreover have "f * x \<le> A" by (simp add: x_def)
    ultimately show ?thesis using le(1) by simp
  qed
  then have "(f * x) * ?m + cnt * ?m \<le> NS * ?m"
    by (simp add: add_mult_distrib [symmetric])
  then have lenE': "length ?E' = cnt * ?m"
    using len by simp
  then have rs: "reshape_infer ?E' (sample_shape p) = Inr \<lparr>shape = cnt # sample_shape p, elems = ?E'\<rparr>"
    using m0 by (simp add: reshape_infer_def)
  from fspw_indices [OF f0, where A = A and B = B] obtain s1 s2
    where s: "slice_indices ?ds (int cnt) = Inr (int s1, int s2, 1)"
      "s2 - s1 = B - A" "B \<le> A \<or> s1 + f * x = A" "B - A \<le> cnt - s1"
    unfolding cnt_def x_def y_def by blast
  have "getitem decoders p (Single (Slc s))
          = nd_getitem \<lparr>shape = cnt # sample_shape p, elems = ?E'\<rparr> (Single (Slc ?ds))"
    using dec its W rs slice_not_all [OF ind ne] by (simp add: getitem_def lookup_decoder_def)
  also have "\<dots> = Inr \<lparr>shape = (B - A) # sample_shape p,
                          elems = take ((B - A) * ?m) (drop (s1 * ?m) ?E')\<rparr>"
    using nd_getitem_rows [OF s(1), of "sample_shape p" ?E'] s(2)
    by (simp add: nat_diff_distrib' del: of_nat_diff)
  also have "take ((B - A) * ?m) (drop (s1 * ?m) ?E') = take ((B - A) * ?m) (drop (A * ?m) E)"
  proof (cases "B \<le> A")
    case True
    then show ?thesis by simp
  next
    case False
    with s(3) have "s1 + f * x = A" by simp
    moreover have "min (B - A) (cnt - s1) = B - A" using s(4) by simp
    ultimately show ?thesis
      using rows_of_rows [of "B - A" ?m s1 cnt "f * x" E] by simp
  qed
  finally show ?thesis .
qed


lemma getitem_whole:
  assumes d: "decoded decoder c p E NS" and dec: "decoders (bps p) = Some decoder"
    and ind: "slice_indices s (int NS) = Inr (int A, int B, 1)" and le: "A \<le> NS" "B \<le> NS"
    and eq: "int B - int A = int NS"
  shows "getitem decoders p (Single (Slc s)) =
           Inr \<lparr>shape = (B - A) # sample_shape p,
                elems = take ((B - A) * prod_list (sample_shape p))
                          (drop (A * prod_list (sample_shape p)) E)\<rparr>"
proof -
  let ?m = "prod_list (sample_shape p)"
  from d have v: "view_dtype (complex_data p) (decoder (words p)) = Inr E"
    and nz: "bpfs p \<noteq> 0" and len: "NS * ?m = length E"
    by (rule decodedD)+
  have m0: "?m \<noteq> 0" using nz by (auto simp: bpfs_def)
  from eq le have A: "A = 0" and B: "B = NS" by linarith+
  have all: "take ((B - A) * ?m) (drop (A * ?m) E) = E"
    using A B len by simp
  show ?thesis
  proof (cases "s = Slice None None None")
    case True
    have "payload_shape p = Inr (NS # sample_shape p)"
      using decoded_nsample [OF d] by (simp add: payload_shape_def)
    then have "getitem decoders p (Single (Slc s)) = Inr \<lparr>shape = NS # sample_shape p, elems = E\<rparr>"
      using True dec v len by (simp add: getitem_def lookup_decoder_def reshape_def)
    with all A B show ?thesis by simp
  next
    case False
    have its: "item_to_slices p (Single (Slc s)) =
        Inr (Slice None None None, Single (Slc (Slice None None None)))"
      using resolve_slice [OF decoded_nsample [OF d] ind] decoded_nsample [OF d] eq
      by (simp add: item_to_slices_def item_to_slices_single_def)
    have rs: "reshape_infer E (sample_shape p) = Inr \<lparr>shape = NS # sample_shape p, elems = E\<rparr>"
      using m0 len [symmetric] by (simp add: reshape_infer_def)
    have "getitem decoders p (Single (Slc s))
            = nd_getitem \<lparr>shape = NS # sample_shape p, elems = E\<rparr>
                (Single (Slc (Slice None None None)))"
      using dec its v rs False by (simp add: getitem_def lookup_decoder_def slice_list_all)
    also have "\<dots> = Inr \<lparr>shape = NS # sample_shape p, elems = take (NS * ?m) E\<rparr>"
      using nd_getitem_rows [of "Slice None None None" NS 0 "int NS" "sample_shape p" E]
      by (simp add: slice_indices_step1)
    finally show ?thesis using all A B len by simp
  qed
qed

lemma full_decoded:
  assumes dec: "decoders (bps p) = Some decoder" and wl: "word_local decoder c"
    and c: "c * bps p = 32" and full: "getitem decoders p (Tuple []) = Inr full"
  shows "\<exists>E NS. decoded decoder c p E NS \<and> full = \<lparr>shape = NS # sample_shape p, elems = E\<rparr>"
proof -
  from full dec obtain E where v: "view_dtype (complex_data p) (decoder (words p)) = Inr E"
    by (cases "view_dtype (complex_data p) (decoder (words p))")
       (simp_all add: getitem_def lookup_decoder_def)
  from full dec v obtain shp where shp: "payload_shape p = Inr shp"
    by (cases "payload_shape p") (simp_all add: getitem_def lookup_decoder_def)
  then obtain n where n: "nsample p = Inr n" and shp': "shp = nat n # sample_shape p"
    by (cases "nsample p") (simp_all add: payload_shape_def)
  from n have nz: "bpfs p \<noteq> 0" and n': "n = int (payload_size p * 8 div bpfs p)"
    by (auto simp: nsample_def split: if_splits)
  define NS where "NS = payload_size p * 8 div bpfs p"
  from full dec v shp have r: "reshape \<lparr>shape = [length E], elems = E\<rparr> shp = Inr full"
    by (simp add: getitem_def lookup_decoder_def)
  then have "prod_list shp = length E" and f: "full = \<lparr>shape = shp, elems = E\<rparr>"
    by (auto simp: reshape_def split: if_splits)
  with shp' n' have len: "NS * prod_list (sample_shape p) = length E"
    by (simp add: NS_def)
  have "decoded decoder c p E NS"
    using wl c v nz n n' len by (simp add: decoded_def NS_def)
  moreover have "full = \<lparr>shape = NS # sample_shape p, elems = E\<rparr>"
    using f shp' n' by (simp add: NS_def)
  ultimately show ?thesis by blast
qed

lemma slice_indices_nat:
  assumes "st = None \<or> st = Some 1"
  shows "\<exists>A B. slice_indices (Slice a b st) (int NS) = Inr (int A, int B, 1) \<and> A \<le> NS \<and> B \<le> NS"
proof -
  have same: "slice_indices (Slice a b st) (int NS) = slice_indices (Slice a b None) (int NS)"
    using assms by (auto simp: slice_indices_def)
  obtain a' b' s' where i: "slice_indices (Slice a b None) (int NS) = Inr (a', b', s')"
    by (simp add: slice_indices_step1)
  from slice_indices_step1_bounds [OF i] have "0 \<le> a'" "a' \<le> int NS" "0 \<le> b'" "b' \<le> int NS" "s' = 1"
    by simp_all
  then have "slice_indices (Slice a b st) (int NS) = Inr (int (nat a'), int (nat b'), 1)"
    and "nat a' \<le> NS" and "nat b' \<le> NS"
    using same i by simp_all
  then show ?thesis by blast
qed

text \<open>
  C1 (as amended). Let the bits per full sample divide the word width or be a multiple
  of it, let the decoder of the payload work word by word on words without unused bits,
  and let the whole payload decode, to the array \<open>full\<close>. Then for every slice \<open>[a:b]\<close> with
  step 1 (given as no step or as 1; \<open>a\<close> and \<open>b\<close> may be absent, negative or out of range,
  as \<open>indices\<close> resolves them against \<open>nsample\<close>), indexing the payload with the slice,
  which decodes only the words selected by \<open>_item_to_slices\<close> and applies the data slice,
  gives exactly the array that the same slice selects from \<open>full\<close>.
\<close>

theorem getitem_slice_full:
  assumes dec: "decoders (bps p) = Some decoder"
    and wl: "word_local decoder c" and c: "c * bps p = 32"
    and lay: "bpfs p mod 32 = 0 \<or> 32 mod bpfs p = 0"
    and full: "getitem decoders p (Tuple []) = Inr full"
    and st: "st = None \<or> st = Some 1"
  shows "getitem decoders p (Single (Slc (Slice a b st)))
           = nd_getitem full (Single (Slc (Slice a b st)))"
proof -
  from full_decoded [OF dec wl c full] obtain E NS
    where d: "decoded decoder c p E NS"
      and f: "full = \<lparr>shape = NS # sample_shape p, elems = E\<rparr>"
    by blast
  from slice_indices_nat [OF st] obtain A B
    where ind: "slice_indices (Slice a b st) (int NS) = Inr (int A, int B, 1)"
      and le: "A \<le> NS" "B \<le> NS"
    by blast
  let ?r = "Inr \<lparr>shape = (B - A) # sample_shape p,
                  elems = take ((B - A) * prod_list (sample_shape p))
                            (drop (A * prod_list (sample_shape p)) E)\<rparr>"
  have rhs: "nd_getitem full (Single (Slc (Slice a b st))) = ?r"
    unfolding f using nd_getitem_rows [OF ind, of "sample_shape p" E]
    by (simp add: nat_diff_distrib' del: of_nat_diff)
  have lhs: "getitem decoders p (Single (Slc (Slice a b st))) = ?r"
  proof (cases "int B - int A = int NS")
    case True
    from getitem_whole [where decoders = decoders, OF d dec ind le True] show ?thesis .
  next
    case False
    show ?thesis
    proof (cases "bpfs p mod 32 = 0")
      case True
      from getitem_wpfs [where decoders = decoders, OF d dec True ind le False] show ?thesis .
    next
      case wide: False
      with lay have "32 mod bpfs p = 0" by simp
      from getitem_fspw [where decoders = decoders, OF d dec wide this ind le False] show ?thesis .
    qed
  qed
  from lhs rhs show ?thesis by simp
qed


lemma word_local_decode_bytes: "word_local decode_bytes 4"
  by (simp add: word_local_def decode_bytes_def word_bytes_def)

theorem getitem_slice_full_witness:
  "getitem example_decoders
     \<lparr>words = [0x04030201, 0x08070605, 0x0C0B0A09], bps = 8, sample_shape = [2],
      complex_data = False\<rparr> (Tuple [])
   = Inr \<lparr>shape = [6, 2],
          elems = [Real 1, Real 2, Real 3, Real 4, Real 5, Real 6, Real 7, Real 8, Real 9,
                   Real 10, Real 11, Real 12]\<rparr>
   \<and> getitem example_decoders
     \<lparr>words = [0x04030201, 0x08070605, 0x0C0B0A09], bps = 8, sample_shape = [2],
      complex_data = False\<rparr> (Single (Slc (Slice (Some 1) (Some 4) None)))
   = Inr \<lparr>shape = [3, 2], elems = [Real 3, Real 4, Real 5, Real 6, Real 7, Real 8]\<rparr>"
proof -
  let ?p = "\<lparr>words = [0x04030201, 0x08070605, 0x0C0B0A09], bps = 8, sample_shape = [2],
      complex_data = False\<rparr>"
  let ?full = "\<lparr>shape = [6, 2],
          elems = [Real 1, Real 2, Real 3, Real 4, Real 5, Real 6, Real 7, Real 8, Real 9,
                   Real 10, Real 11, Real (12::nat)]\<rparr>"
  have full: "getitem example_decoders ?p (Tuple []) = Inr ?full"
    by code_simp
  have dec: "example_decoders (bps ?p) = Some decode_bytes"
    by (simp add: example_decoders_def)
  have "getitem example_decoders ?p (Single (Slc (Slice (Some 1) (Some 4) None)))
          = nd_getitem ?full (Single (Slc (Slice (Some 1) (Some 4) None)))"
    by (rule getitem_slice_full [OF dec word_local_decode_bytes _ _ full])
       (simp_all add: bpfs_def)
  also have "\<dots> = Inr \<lparr>shape = [3, 2], elems = [Real 3, Real 4, Real 5, Real 6, Real 7, Real 8]\<rparr>"
    by code_simp
  finally show ?thesis using full by simp
qed

text \<open>
  The claim as stated fails on the layouts that \<open>_item_to_slices\<close> rejects: three words
  with three 8-bit channels decode to four samples of 24 bits, of which the slice
  \<open>[0:2]\<close> of the decoded array is the first two, but the payload indexed with \<open>[0:2]\<close>
  raises \<open>TypeError\<close>.
\<close>

theorem getitem_slice_full_counterexample:
  "getitem example_decoders
     \<lparr>words = [0x04030201, 0x08070605, 0x0C0B0A09], bps = 8, sample_shape = [3],
      complex_data = False\<rparr> (Tuple [])
   = Inr \<lparr>shape = [4, 3],
          elems = [Real 1, Real 2, Real 3, Real 4, Real 5, Real 6, Real 7, Real 8, Real 9,
                   Real 10, Real 11, Real 12]\<rparr>
   \<and> nd_getitem
       \<lparr>shape = [4, 3],
        elems = [Real 1, Real 2, Real 3, Real 4, Real 5, Real 6, Real 7, Real 8, Real 9,
                 Real 10, Real 11, Real (12::nat)]\<rparr>
       (Single (Slc (Slice (Some 0) (Some 2) None)))
     = Inr \<lparr>shape = [2, 3], elems = [Real 1, Real 2, Real 3, Real 4, Real 5, Real 6]\<rparr>
   \<and> getitem example_decoders
       \<lparr>words = [0x04030201, 0x08070605, 0x0C0B0A09], bps = 8, sample_shape = [3],
        complex_data = False\<rparr> (Single (Slc (Slice (Some 0) (Some 2) None)))
     = Inl (Exn TypeError [''Do not know how to extract data''])"
  by code_simp




text \<open>
  C9 fails on the code: a slice with a negative step is not rejected. On four samples of
  one word each, \<open>[1:3:-1]\<close> returns the samples 2 and 1, where the same slice of the
  decoded payload is empty.
\<close>

theorem negative_step_returns_data:
  "getitem example_decoders
     \<lparr>words = [0x04030201, 0x08070605, 0x0C0B0A09, 0x100F0E0D], bps = 8, sample_shape = [4],
      complex_data = False\<rparr> (Single (Slc (Slice (Some 1) (Some 3) (Some (- 1)))))
   = Inr \<lparr>shape = [2, 4],
          elems = [Real 9, Real 10, Real 11, Real 12, Real 5, Real 6, Real 7, Real 8]\<rparr>
   \<and> nd_getitem
       \<lparr>shape = [4, 4],
        elems = [Real 1, Real 2, Real 3, Real 4, Real 5, Real 6, Real 7, Real 8, Real 9,
                 Real 10, Real 11, Real 12, Real 13, Real 14, Real 15, Real (16::nat)]\<rparr>
       (Single (Slc (Slice (Some 1) (Some 3) (Some (- 1)))))
     = Inr \<lparr>shape = [0, 4], elems = []\<rparr>"
  by code_simp

end
